theory Spec2Isabelle
  imports Main
begin

section \<open>Data model\<close>

text \<open>
  Objects of the classes \<open>Node\<close> and \<open>Transform\<close> live on the heap and are reached through
  \<open>std::shared_ptr\<close> and \<open>std::weak_ptr\<close>. An address is an index into a store of cells; a
  cell holding \<open>None\<close> is an object that has been destroyed, so a weak pointer to it has
  expired.
\<close>

type_synonym addr = nat

text \<open>
  The ways in which a call fails to return. \<open>TypeError\<close> is the exception \<open>type_error\<close> of
  the JSON library and \<open>BadWeakPtr\<close> is \<open>std::bad_weak_ptr\<close>: both propagate to the caller,
  and the objects are left as they are at the throw. \<open>AssertionFailure\<close> is a failed
  \<open>JSON_ASSERT\<close> of the library: the program is aborted at that statement, nothing
  propagates and nothing can catch it; a state given with it is the state in which the
  program stopped. The model is of the library as it is built by default, with its
  assertions; where they are compiled out (\<open>NDEBUG\<close>) the behaviour at such a statement is
  undefined, and the model says nothing about it.
\<close>

datatype error = AssertionFailure | TypeError | BadWeakPtr

text \<open>
  \<open>Transform::Vec3\<close>: three floats. The scalar type is a parameter with nothing but the
  constants and operations the code uses (\<open>0\<close>, \<open>1\<close>, \<open>+\<close>, \<open>*\<close>), so that no law of
  arithmetic that floats do not obey enters a proof.
\<close>

datatype 'a Vec3 = Vec3 (vx: 'a) (vy: 'a) (vz: 'a)

text \<open>
  The structured document (\<open>nlohmann::json\<close>). An object keeps its entries in the order of
  their keys, as the library's \<open>std::map\<close> does.
\<close>

datatype 'a json =
    JNull
  | JBool bool
  | JNumber 'a
  | JString string
  | JArray "'a json list"
  | JObject "(string \<times> 'a json) list"

text \<open>
  \<open>Component\<close> has one implementation in the repository, \<open>Transform\<close>; its base-class
  field \<open>owner\<close> is a \<open>std::weak_ptr<Node>\<close> (\<open>None\<close> is the empty weak pointer).
\<close>

record 'a Transform =
  owner :: "addr option"
  localPosition :: "'a Vec3"
  localRotation :: "'a Vec3"
  localScale :: "'a Vec3"
  dirty :: bool
  worldPosition :: "'a Vec3"
  worldRotation :: "'a Vec3"
  worldScale :: "'a Vec3"

text \<open>
  The keys of \<open>Node::components\<close> are \<open>std::type_index\<close> values; the only component type
  of the repository is \<open>Transform\<close>.
\<close>

datatype type_index = TypeTransform

text \<open>
  \<open>Node\<close>. The field \<open>weak_this\<close> is the weak pointer that the base class
  \<open>std::enable_shared_from_this<Node>\<close> holds: it is empty while the constructor runs and
  is set by \<open>std::make_shared\<close> once the object is built. \<open>parent\<close> is a weak pointer,
  \<open>children\<close>, \<open>components\<close> and \<open>transform\<close> hold shared pointers.
\<close>

record Node =
  weak_this :: "addr option"
  name :: string
  parent :: "addr option"
  children :: "addr list"
  components :: "type_index \<rightharpoonup> addr"
  transform :: "addr option"
  active :: bool

record 'a heap =
  nodes :: "Node option list"
  transforms :: "'a Transform option list"

record Scene =
  rootNodes :: "addr list"

subsection \<open>Store access\<close>

definition lookup :: "'b option list \<Rightarrow> addr \<Rightarrow> 'b option" where
  "lookup cells a = (if a < length cells then cells ! a else None)"

definition node_at :: "'a heap \<Rightarrow> addr \<Rightarrow> Node option" where
  "node_at h a = lookup (nodes h) a"

definition transform_at :: "'a heap \<Rightarrow> addr \<Rightarrow> 'a Transform option" where
  "transform_at h t = lookup (transforms h) t"

text \<open>A field assignment through a pointer: the object at the address is replaced.\<close>

definition modify_node :: "addr \<Rightarrow> (Node \<Rightarrow> Node) \<Rightarrow> 'a heap \<Rightarrow> 'a heap" where
  "modify_node a f h =
     (case node_at h a of
        None \<Rightarrow> h
      | Some N \<Rightarrow> h\<lparr>nodes := (nodes h)[a := Some (f N)]\<rparr>)"

definition modify_transform ::
  "addr \<Rightarrow> ('a Transform \<Rightarrow> 'a Transform) \<Rightarrow> 'a heap \<Rightarrow> 'a heap" where
  "modify_transform t f h =
     (case transform_at h t of
        None \<Rightarrow> h
      | Some T \<Rightarrow> h\<lparr>transforms := (transforms h)[t := Some (f T)]\<rparr>)"

text \<open>A new object takes the next cell of its store.\<close>

definition new_node_cell :: "Node \<Rightarrow> 'a heap \<Rightarrow> 'a heap" where
  "new_node_cell N h = h\<lparr>nodes := nodes h @ [Some N]\<rparr>"

definition new_transform_cell :: "'a Transform \<Rightarrow> 'a heap \<Rightarrow> 'a heap" where
  "new_transform_cell T h = h\<lparr>transforms := transforms h @ [Some T]\<rparr>"

text \<open>\<open>std::weak_ptr<Node>::lock\<close>: null when the pointer is empty or has expired.\<close>

definition lock :: "'a heap \<Rightarrow> addr option \<Rightarrow> addr option" where
  "lock h w =
     (case w of
        None \<Rightarrow> None
      | Some a \<Rightarrow> (case node_at h a of None \<Rightarrow> None | Some N \<Rightarrow> Some a))"

section \<open>Documents\<close>

text \<open>
  \<open>j[key]\<close> on a \<open>const json&\<close>. When \<open>j\<close> is not an object the library throws
  \<open>type_error\<close>. When \<open>j\<close> is an object the library looks the key up and asserts that it
  was found; for an absent key this assertion fails and the program is aborted.
\<close>

definition json_at :: "'a json \<Rightarrow> string \<Rightarrow> error + 'a json" where
  "json_at j k =
     (case j of
        JObject kvs \<Rightarrow> (case map_of kvs k of None \<Rightarrow> Inl AssertionFailure | Some v \<Rightarrow> Inr v)
      | _ \<Rightarrow> Inl TypeError)"

text \<open>
  The implicit conversions of a document to \<open>float\<close>, \<open>bool\<close> and \<open>std::string\<close>. The
  conversion to an arithmetic type accepts numbers and booleans and raises \<open>type_error\<close>
  on anything else.
\<close>

definition get_float :: "'a::{zero,one} json \<Rightarrow> error + 'a" where
  "get_float j =
     (case j of
        JNumber v \<Rightarrow> Inr v
      | JBool b \<Rightarrow> Inr (if b then 1 else 0)
      | _ \<Rightarrow> Inl TypeError)"

definition get_bool :: "'a json \<Rightarrow> error + bool" where
  "get_bool j = (case j of JBool b \<Rightarrow> Inr b | _ \<Rightarrow> Inl TypeError)"

definition get_string :: "'a json \<Rightarrow> error + string" where
  "get_string j = (case j of JString s \<Rightarrow> Inr s | _ \<Rightarrow> Inl TypeError)"

text \<open>
  The elements a range-based \<open>for\<close> visits: those of an array, the values of an object,
  nothing for null, and a primitive value itself.
\<close>

definition json_items :: "'a json \<Rightarrow> 'a json list" where
  "json_items j =
     (case j of
        JArray js \<Rightarrow> js
      | JObject kvs \<Rightarrow> map snd kvs
      | JNull \<Rightarrow> []
      | _ \<Rightarrow> [j])"

section \<open>Vec3\<close>

definition Vec3_Serialize :: "'a Vec3 \<Rightarrow> 'a json" where
  "Vec3_Serialize v =
     JObject [(''x'', JNumber (vx v)), (''y'', JNumber (vy v)), (''z'', JNumber (vz v))]"

text \<open>
  \<open>Vec3::Deserialize\<close> assigns \<open>x\<close>, \<open>y\<close> and \<open>z\<close> in turn. A failure leaves the fields
  assigned so far: the left injection carries the error and the object as it is at the
  throw or at the failed assertion.
\<close>

definition read_float :: "'a::{zero,one} json \<Rightarrow> string \<Rightarrow> error + 'a" where
  "read_float j k = (case json_at j k of Inl e \<Rightarrow> Inl e | Inr v \<Rightarrow> get_float v)"

definition Vec3_Deserialize ::
  "'a::{zero,one} json \<Rightarrow> 'a Vec3 \<Rightarrow> error \<times> 'a Vec3 + 'a Vec3" where
  "Vec3_Deserialize j v =
     (case read_float j ''x'' of
        Inl e \<Rightarrow> Inl (e, v)
      | Inr a \<Rightarrow>
          (case read_float j ''y'' of
             Inl e \<Rightarrow> Inl (e, Vec3 a (vy v) (vz v))
           | Inr b \<Rightarrow>
               (case read_float j ''z'' of
                  Inl e \<Rightarrow> Inl (e, Vec3 a b (vz v))
                | Inr c \<Rightarrow> Inr (Vec3 a b c))))"

section \<open>Transform\<close>

text \<open>The constructor \<open>Transform::Transform()\<close>; the base class leaves \<open>owner\<close> empty.\<close>

definition Transform_new :: "'a::{zero,one} Transform" where
  "Transform_new =
     \<lparr>owner = None,
      localPosition = Vec3 0 0 0, localRotation = Vec3 0 0 0, localScale = Vec3 1 1 1,
      dirty = True,
      worldPosition = Vec3 0 0 0, worldRotation = Vec3 0 0 0, worldScale = Vec3 1 1 1\<rparr>"

definition GetChildren :: "'a heap \<Rightarrow> addr \<Rightarrow> addr list" where
  "GetChildren h n = (case node_at h n of None \<Rightarrow> [] | Some N \<Rightarrow> children N)"

definition GetParent :: "'a heap \<Rightarrow> addr \<Rightarrow> addr option" where
  "GetParent h n = (case node_at h n of None \<Rightarrow> None | Some N \<Rightarrow> lock h (parent N))"

text \<open>\<open>Node::GetComponent<Transform>\<close> and \<open>Node::HasComponent<Transform>\<close> read the map.\<close>

definition GetComponent_Transform :: "'a heap \<Rightarrow> addr \<Rightarrow> addr option" where
  "GetComponent_Transform h n =
     (case node_at h n of None \<Rightarrow> None | Some N \<Rightarrow> components N TypeTransform)"

definition HasComponent_Transform :: "'a heap \<Rightarrow> addr \<Rightarrow> bool" where
  "HasComponent_Transform h n =
     (case node_at h n of None \<Rightarrow> False | Some N \<Rightarrow> components N TypeTransform \<noteq> None)"

text \<open>\<open>Node::GetTransform\<close> reads the quick-access field.\<close>

definition GetTransform :: "'a heap \<Rightarrow> addr \<Rightarrow> addr option" where
  "GetTransform h n = (case node_at h n of None \<Rightarrow> None | Some N \<Rightarrow> transform N)"

text \<open>
  The block "Mark children as dirty" that the three local setters share: the direct
  children of the owner, when the owner can be locked.
\<close>

definition mark_child_dirty :: "addr \<Rightarrow> 'a heap \<Rightarrow> 'a heap" where
  "mark_child_dirty child h =
     (case GetComponent_Transform h child of
        None \<Rightarrow> h
      | Some childTransform \<Rightarrow> modify_transform childTransform (\<lambda>T. T\<lparr>dirty := True\<rparr>) h)"

definition mark_children_dirty :: "addr \<Rightarrow> 'a heap \<Rightarrow> 'a heap" where
  "mark_children_dirty t h =
     (case transform_at h t of
        None \<Rightarrow> h
      | Some T \<Rightarrow>
          (case lock h (owner T) of
             None \<Rightarrow> h
           | Some node \<Rightarrow> fold mark_child_dirty (GetChildren h node) h))"

definition SetLocalPosition :: "addr \<Rightarrow> 'a Vec3 \<Rightarrow> 'a heap \<Rightarrow> 'a heap" where
  "SetLocalPosition t position h =
     mark_children_dirty t
       (modify_transform t (\<lambda>T. T\<lparr>localPosition := position, dirty := True\<rparr>) h)"

definition SetLocalRotation :: "addr \<Rightarrow> 'a Vec3 \<Rightarrow> 'a heap \<Rightarrow> 'a heap" where
  "SetLocalRotation t rotation h =
     mark_children_dirty t
       (modify_transform t (\<lambda>T. T\<lparr>localRotation := rotation, dirty := True\<rparr>) h)"

definition SetLocalScale :: "addr \<Rightarrow> 'a Vec3 \<Rightarrow> 'a heap \<Rightarrow> 'a heap" where
  "SetLocalScale t scale h =
     mark_children_dirty t
       (modify_transform t (\<lambda>T. T\<lparr>localScale := scale, dirty := True\<rparr>) h)"

text \<open>
  A world getter: when the flag is set it runs the update and then reads the cached
  field. The update is a parameter here because getter and update call each other.
\<close>

definition get_world ::
  "('a Transform \<Rightarrow> 'a Vec3) \<Rightarrow> (addr \<Rightarrow> 'a heap \<Rightarrow> 'a heap option) \<Rightarrow>
   addr \<Rightarrow> 'a heap \<Rightarrow> ('a Vec3 \<times> 'a heap) option" where
  "get_world field update t h =
     (case transform_at h t of
        None \<Rightarrow> None
      | Some T \<Rightarrow>
          if dirty T then
            (case update t h of
               None \<Rightarrow> None
             | Some h' \<Rightarrow>
                 (case transform_at h' t of None \<Rightarrow> None | Some T' \<Rightarrow> Some (field T', h')))
          else Some (field T, h))"

definition world_from_local :: "'a Transform \<Rightarrow> 'a Transform" where
  "world_from_local T =
     T\<lparr>worldPosition := localPosition T,
       worldRotation := localRotation T,
       worldScale := localScale T\<rparr>"

definition world_from_parent ::
  "'a::{plus,times} Vec3 \<Rightarrow> 'a Vec3 \<Rightarrow> 'a Vec3 \<Rightarrow> 'a Transform \<Rightarrow> 'a Transform" where
  "world_from_parent parentWorldPos parentWorldRot parentWorldScale T =
     T\<lparr>worldPosition :=
         Vec3 (vx parentWorldPos + vx (localPosition T) * vx parentWorldScale)
              (vy parentWorldPos + vy (localPosition T) * vy parentWorldScale)
              (vz parentWorldPos + vz (localPosition T) * vz parentWorldScale),
       worldRotation :=
         Vec3 (vx parentWorldRot + vx (localRotation T))
              (vy parentWorldRot + vy (localRotation T))
              (vz parentWorldRot + vz (localRotation T)),
       worldScale :=
         Vec3 (vx parentWorldScale * vx (localScale T))
              (vy parentWorldScale * vy (localScale T))
              (vz parentWorldScale * vz (localScale T))\<rparr>"

text \<open>
  \<open>Transform::UpdateWorldTransform\<close>. It recurses through the parent's getters for as long
  as it meets dirty Transforms, so a cycle of parents never returns: the first argument
  bounds the depth of the calls, and \<open>None\<close> is a recursion that did not come back.
\<close>

fun UpdateWorldTransform :: "nat \<Rightarrow> addr \<Rightarrow> 'a::{plus,times} heap \<Rightarrow> 'a heap option" where
  "UpdateWorldTransform 0 t h = None"
| "UpdateWorldTransform (Suc k) t h =
     (case transform_at h t of
        None \<Rightarrow> None
      | Some T \<Rightarrow>
          (case lock h (owner T) of
             None \<Rightarrow> Some (modify_transform t (\<lambda>T. T\<lparr>dirty := False\<rparr>) h)
           | Some node \<Rightarrow>
               (case GetParent h node of
                  None \<Rightarrow>
                    Some (modify_transform t (\<lambda>T. (world_from_local T)\<lparr>dirty := False\<rparr>) h)
                | Some p \<Rightarrow>
                    (case GetComponent_Transform h p of
                       None \<Rightarrow>
                         Some (modify_transform t
                                 (\<lambda>T. (world_from_local T)\<lparr>dirty := False\<rparr>) h)
                     | Some parentTransform \<Rightarrow>
                         (case get_world worldPosition (UpdateWorldTransform k)
                                 parentTransform h of
                            None \<Rightarrow> None
                          | Some (parentWorldPos, h1) \<Rightarrow>
                         (case get_world worldRotation (UpdateWorldTransform k)
                                 parentTransform h1 of
                            None \<Rightarrow> None
                          | Some (parentWorldRot, h2) \<Rightarrow>
                         (case get_world worldScale (UpdateWorldTransform k)
                                 parentTransform h2 of
                            None \<Rightarrow> None
                          | Some (parentWorldScale, h3) \<Rightarrow>
                              Some (modify_transform t
                                      (\<lambda>T. (world_from_parent parentWorldPos parentWorldRot
                                               parentWorldScale T)\<lparr>dirty := False\<rparr>)
                                      h3))))))))"

definition GetWorldPosition ::
  "nat \<Rightarrow> addr \<Rightarrow> 'a::{plus,times} heap \<Rightarrow> ('a Vec3 \<times> 'a heap) option" where
  "GetWorldPosition k t h = get_world worldPosition (UpdateWorldTransform k) t h"

definition GetWorldRotation ::
  "nat \<Rightarrow> addr \<Rightarrow> 'a::{plus,times} heap \<Rightarrow> ('a Vec3 \<times> 'a heap) option" where
  "GetWorldRotation k t h = get_world worldRotation (UpdateWorldTransform k) t h"

definition GetWorldScale ::
  "nat \<Rightarrow> addr \<Rightarrow> 'a::{plus,times} heap \<Rightarrow> ('a Vec3 \<times> 'a heap) option" where
  "GetWorldScale k t h = get_world worldScale (UpdateWorldTransform k) t h"

definition OnAttach :: "nat \<Rightarrow> addr \<Rightarrow> 'a::{plus,times} heap \<Rightarrow> 'a heap option" where
  "OnAttach k t h = UpdateWorldTransform k t (modify_transform t (\<lambda>T. T\<lparr>dirty := True\<rparr>) h)"

definition Transform_Serialize :: "'a Transform \<Rightarrow> 'a json" where
  "Transform_Serialize T =
     JObject [(''position'', Vec3_Serialize (localPosition T)),
              (''rotation'', Vec3_Serialize (localRotation T)),
              (''scale'', Vec3_Serialize (localScale T))]"

text \<open>
  \<open>Transform::Deserialize\<close> on the object itself; an exception leaves what was assigned
  before it.
\<close>

definition Transform_Deserialize ::
  "'a::{zero,one} json \<Rightarrow> 'a Transform \<Rightarrow> error \<times> 'a Transform + 'a Transform" where
  "Transform_Deserialize j T =
     (case json_at j ''position'' of
        Inl e \<Rightarrow> Inl (e, T)
      | Inr jp \<Rightarrow>
     (case Vec3_Deserialize jp (localPosition T) of
        Inl (e, v) \<Rightarrow> Inl (e, T\<lparr>localPosition := v\<rparr>)
      | Inr v \<Rightarrow>
          let T1 = T\<lparr>localPosition := v\<rparr> in
     (case json_at j ''rotation'' of
        Inl e \<Rightarrow> Inl (e, T1)
      | Inr jr \<Rightarrow>
     (case Vec3_Deserialize jr (localRotation T1) of
        Inl (e, v) \<Rightarrow> Inl (e, T1\<lparr>localRotation := v\<rparr>)
      | Inr v \<Rightarrow>
          let T2 = T1\<lparr>localRotation := v\<rparr> in
     (case json_at j ''scale'' of
        Inl e \<Rightarrow> Inl (e, T2)
      | Inr js \<Rightarrow>
     (case Vec3_Deserialize js (localScale T2) of
        Inl (e, v) \<Rightarrow> Inl (e, T2\<lparr>localScale := v\<rparr>)
      | Inr v \<Rightarrow> Inr (T2\<lparr>localScale := v, dirty := True\<rparr>)))))))"

text \<open>The same call through a pointer to the Transform.\<close>

definition Transform_Deserialize_at ::
  "'a::{zero,one} json \<Rightarrow> addr \<Rightarrow> 'a heap \<Rightarrow> error \<times> 'a heap + 'a heap" where
  "Transform_Deserialize_at j t h =
     (case transform_at h t of
        None \<Rightarrow> Inr h
      | Some T \<Rightarrow>
          (case Transform_Deserialize j T of
             Inl (e, T') \<Rightarrow> Inl (e, modify_transform t (\<lambda>_. T') h)
           | Inr T' \<Rightarrow> Inr (modify_transform t (\<lambda>_. T') h)))"

section \<open>Node\<close>

text \<open>\<open>std::make_shared<Transform>()\<close>: a new cell at the end of the store.\<close>

definition make_shared_Transform :: "'a::{zero,one} heap \<Rightarrow> addr \<times> 'a heap" where
  "make_shared_Transform h =
     (length (transforms h), new_transform_cell Transform_new h)"

text \<open>
  \<open>Node::AddComponent<Transform>\<close>: the new component gets \<open>weak_from_this()\<close> as owner, is
  stored under its type and in the quick-access field, and is attached.
\<close>

definition weak_from_this :: "'a heap \<Rightarrow> addr \<Rightarrow> addr option" where
  "weak_from_this h a = (case node_at h a of None \<Rightarrow> None | Some N \<Rightarrow> weak_this N)"

definition AddComponent_Transform ::
  "nat \<Rightarrow> addr \<Rightarrow> 'a::{zero,one,plus,times} heap \<Rightarrow> (addr \<times> 'a heap) option" where
  "AddComponent_Transform k a h =
     (let (component, h1) = make_shared_Transform h;
          h2 = modify_transform component (\<lambda>T. T\<lparr>owner := weak_from_this h1 a\<rparr>) h1;
          h3 = modify_node a
                 (\<lambda>N. N\<lparr>components := (components N)(TypeTransform \<mapsto> component),
                        transform := Some component\<rparr>) h2
      in case OnAttach k component h3 of
           None \<Rightarrow> None
         | Some h4 \<Rightarrow> Some (component, h4))"

text \<open>
  The constructor \<open>Node::Node(name)\<close> builds the object in a new cell and calls
  \<open>AddComponent<Transform>()\<close>. The base class \<open>enable_shared_from_this\<close> has not been
  given its pointer yet, so the \<open>weak_from_this()\<close> of that call is empty and the update
  that \<open>OnAttach\<close> runs only clears the flag: the call is written out with that branch
  (lemma \<open>Node_ctor_AddComponent\<close> below relates it to \<open>AddComponent_Transform\<close>).
\<close>

definition Node_init :: "string \<Rightarrow> Node" where
  "Node_init nm =
     \<lparr>weak_this = None, name = nm, parent = None, children = [],
      components = Map.empty, transform = None, active = True\<rparr>"

definition Node_ctor :: "string \<Rightarrow> 'a::{zero,one} heap \<Rightarrow> addr \<times> 'a heap" where
  "Node_ctor nm h =
     (let a = length (nodes h);
          h0 = new_node_cell (Node_init nm) h;
          (component, h1) = make_shared_Transform h0;
          h2 = modify_transform component (\<lambda>T. T\<lparr>owner := weak_from_this h1 a\<rparr>) h1;
          h3 = modify_node a
                 (\<lambda>N. N\<lparr>components := (components N)(TypeTransform \<mapsto> component),
                        transform := Some component\<rparr>) h2;
          h4 = modify_transform component (\<lambda>T. T\<lparr>dirty := True\<rparr>) h3
      in (a, modify_transform component (\<lambda>T. T\<lparr>dirty := False\<rparr>) h4))"

text \<open>\<open>std::make_shared<Node>(name)\<close>: construct, then hand the object its own pointer.\<close>

definition make_shared_Node :: "string \<Rightarrow> 'a::{zero,one} heap \<Rightarrow> addr \<times> 'a heap" where
  "make_shared_Node nm h =
     (let (a, h1) = Node_ctor nm h
      in (a, modify_node a (\<lambda>N. N\<lparr>weak_this := Some a\<rparr>) h1))"

text \<open>\<open>shared_from_this()\<close> throws \<open>std::bad_weak_ptr\<close> when the object has no owner.\<close>

definition shared_from_this :: "'a heap \<Rightarrow> addr \<Rightarrow> error + addr" where
  "shared_from_this h a =
     (case lock h (weak_from_this h a) of None \<Rightarrow> Inl BadWeakPtr | Some s \<Rightarrow> Inr s)"

definition AddChild :: "addr \<Rightarrow> addr \<Rightarrow> 'a heap \<Rightarrow> 'a heap" where
  "AddChild a child h =
     modify_node a
       (\<lambda>N. if child \<in> set (children N) then N else N\<lparr>children := children N @ [child]\<rparr>) h"

definition RemoveChild :: "addr \<Rightarrow> addr \<Rightarrow> 'a heap \<Rightarrow> 'a heap" where
  "RemoveChild a child h =
     modify_node a (\<lambda>N. N\<lparr>children := removeAll child (children N)\<rparr>) h"

text \<open>
  \<open>Node::SetParent\<close>. The world getters it calls may not return (see
  \<open>UpdateWorldTransform\<close>), hence the bound \<open>k\<close> and the \<open>option\<close>; inside, the left
  injection is an exception with the heap at the throw.

  The heap has no reference counts and never destroys an object. The definition therefore
  describes a call through a shared pointer that lives on after the call, such as the
  variable that holds the result of \<open>Scene::CreateNode\<close>, and it is used below for such
  calls only. Where the list of children of the old parent holds the only shared pointer to
  the node, \<open>RemoveChild\<close> destroys the node while its own method is running, and what the
  code does after that is undefined; the definition of \<open>RemoveParent\<close> has the same limit.
\<close>

definition reparent_transform ::
  "nat \<Rightarrow> addr \<Rightarrow> 'a::{plus,times} heap \<Rightarrow> 'a heap option" where
  "reparent_transform k t h =
     (case GetWorldPosition k t h of
        None \<Rightarrow> None
      | Some (wp, h1) \<Rightarrow>
     (case GetWorldRotation k t (SetLocalPosition t wp h1) of
        None \<Rightarrow> None
      | Some (wr, h2) \<Rightarrow>
     (case GetWorldScale k t (SetLocalRotation t wr h2) of
        None \<Rightarrow> None
      | Some (ws, h3) \<Rightarrow> Some (SetLocalScale t ws h3))))"

definition detach_from_old_parent :: "addr \<Rightarrow> 'a heap \<Rightarrow> error \<times> 'a heap + 'a heap" where
  "detach_from_old_parent a h =
     (case GetParent h a of
        None \<Rightarrow> Inr h
      | Some oldParent \<Rightarrow>
          (case shared_from_this h a of
             Inl e \<Rightarrow> Inl (e, h)
           | Inr self \<Rightarrow> Inr (RemoveChild oldParent self h)))"

definition attach_to_new_parent ::
  "addr \<Rightarrow> addr \<Rightarrow> 'a heap \<Rightarrow> error \<times> 'a heap + 'a heap" where
  "attach_to_new_parent a np h =
     (let h2 = modify_node a (\<lambda>N. N\<lparr>parent := Some np\<rparr>) h
      in case shared_from_this h2 a of
           Inl e \<Rightarrow> Inl (e, h2)
         | Inr self \<Rightarrow> Inr (AddChild np self h2))"

definition SetParent ::
  "nat \<Rightarrow> addr \<Rightarrow> addr option \<Rightarrow> 'a::{plus,times} heap \<Rightarrow>
   (error \<times> 'a heap + 'a heap) option" where
  "SetParent k a newParent h =
     (case detach_from_old_parent a h of
        Inl eh \<Rightarrow> Some (Inl eh)
      | Inr h1 \<Rightarrow>
          (case newParent of
             None \<Rightarrow> Some (Inr h1)
           | Some np \<Rightarrow>
               (case attach_to_new_parent a np h1 of
                  Inl eh \<Rightarrow> Some (Inl eh)
                | Inr h3 \<Rightarrow>
                    (case GetTransform h3 a of
                       None \<Rightarrow> Some (Inr h3)
                     | Some t \<Rightarrow> map_option Inr (reparent_transform k t h3)))))"

definition RemoveParent :: "addr \<Rightarrow> 'a heap \<Rightarrow> error \<times> 'a heap + 'a heap" where
  "RemoveParent a h =
     (case GetParent h a of
        None \<Rightarrow> Inr h
      | Some p \<Rightarrow>
          (case shared_from_this h a of
             Inl e \<Rightarrow> Inl (e, h)
           | Inr self \<Rightarrow>
               Inr (modify_node a (\<lambda>N. N\<lparr>parent := None\<rparr>) (RemoveChild p self h))))"

text \<open>A loop whose body may not return: it stops at the first \<open>None\<close>.\<close>

fun for_each :: "('b \<Rightarrow> 's \<Rightarrow> 's option) \<Rightarrow> 'b list \<Rightarrow> 's \<Rightarrow> 's option" where
  "for_each body [] s = Some s"
| "for_each body (x # xs) s =
     (case body x s of None \<Rightarrow> None | Some s' \<Rightarrow> for_each body xs s')"

text \<open>
  \<open>Node::SetActive\<close> recurses into the children only when the flag changes. The first
  argument bounds the depth of the recursion.
\<close>

fun SetActive :: "nat \<Rightarrow> addr \<Rightarrow> bool \<Rightarrow> 'a heap \<Rightarrow> 'a heap option" where
  "SetActive 0 a v h = None"
| "SetActive (Suc k) a v h =
     (case node_at h a of
        None \<Rightarrow> None
      | Some N \<Rightarrow>
          if active N \<noteq> v then
            for_each (\<lambda>child. SetActive k child v) (children N)
              (modify_node a (\<lambda>N. N\<lparr>active := v\<rparr>) h)
          else Some h)"

text \<open>
  \<open>Node::Serialize\<close>. The entries of the document are listed in the order of their keys.
  The recursion follows the children, so it is bounded like the others; a shared pointer
  that leads to no object also gives \<open>None\<close>.
\<close>

definition component_entry :: "'a heap \<Rightarrow> addr \<Rightarrow> 'a json option" where
  "component_entry h c =
     (case transform_at h c of
        None \<Rightarrow> None
      | Some T \<Rightarrow>
          Some (JObject [(''data'', Transform_Serialize T), (''type'', JString ''Transform'')]))"

definition components_json :: "'a heap \<Rightarrow> Node \<Rightarrow> 'a json list option" where
  "components_json h N =
     (case components N TypeTransform of
        None \<Rightarrow> Some []
      | Some c \<Rightarrow> (case component_entry h c of None \<Rightarrow> None | Some e \<Rightarrow> Some [e]))"

fun map_option_list :: "('b \<Rightarrow> 'c option) \<Rightarrow> 'b list \<Rightarrow> 'c list option" where
  "map_option_list f [] = Some []"
| "map_option_list f (x # xs) =
     (case f x of
        None \<Rightarrow> None
      | Some y \<Rightarrow> (case map_option_list f xs of None \<Rightarrow> None | Some ys \<Rightarrow> Some (y # ys)))"

fun Node_Serialize :: "nat \<Rightarrow> 'a heap \<Rightarrow> addr \<Rightarrow> 'a json option" where
  "Node_Serialize 0 h a = None"
| "Node_Serialize (Suc k) h a =
     (case node_at h a of
        None \<Rightarrow> None
      | Some N \<Rightarrow>
          (case components_json h N of
             None \<Rightarrow> None
           | Some cs \<Rightarrow>
               (case map_option_list (Node_Serialize k h) (children N) of
                  None \<Rightarrow> None
                | Some ks \<Rightarrow>
                    Some (JObject [(''active'', JBool (active N)),
                                   (''children'', JArray ks),
                                   (''components'', JArray cs),
                                   (''name'', JString (name N))]))))"

section \<open>Scene\<close>

definition Scene_Serialize :: "nat \<Rightarrow> 'a heap \<Rightarrow> Scene \<Rightarrow> 'a json option" where
  "Scene_Serialize k h s =
     (case map_option_list (Node_Serialize k h) (rootNodes s) of
        None \<Rightarrow> None
      | Some rs \<Rightarrow> Some (JObject [(''rootNodes'', JArray rs)]))"

text \<open>
  \<open>Scene::CollectAllNodes\<close>: the local function \<open>collect\<close> pushes the node and then walks
  its children; \<open>result\<close> is the vector being filled.
\<close>

fun collect :: "nat \<Rightarrow> 'a heap \<Rightarrow> addr \<Rightarrow> addr list \<Rightarrow> addr list option" where
  "collect 0 h node result = None"
| "collect (Suc k) h node result =
     (case node_at h node of
        None \<Rightarrow> None
      | Some N \<Rightarrow> for_each (collect k h) (children N) (result @ [node]))"

definition CollectAllNodes :: "nat \<Rightarrow> 'a heap \<Rightarrow> Scene \<Rightarrow> addr list \<Rightarrow> addr list option" where
  "CollectAllNodes k h s result = for_each (collect k h) (rootNodes s) result"

text \<open>
  \<open>Scene::ForEachNode\<close> for a callback that reads the nodes and updates a variable it has
  captured (of type \<open>'r\<close>): the nodes are collected first, then visited in that order.
\<close>

definition ForEachNode ::
  "nat \<Rightarrow> 'a heap \<Rightarrow> Scene \<Rightarrow> (addr \<Rightarrow> 'r \<Rightarrow> 'r) \<Rightarrow> 'r \<Rightarrow> 'r option" where
  "ForEachNode k h s fn r =
     (case CollectAllNodes k h s [] of
        None \<Rightarrow> None
      | Some allNodes \<Rightarrow> Some (fold fn allNodes r))"

definition GetName :: "'a heap \<Rightarrow> addr \<Rightarrow> string" where
  "GetName h a = (case node_at h a of None \<Rightarrow> [] | Some N \<Rightarrow> name N)"

definition FindNodeByName :: "nat \<Rightarrow> 'a heap \<Rightarrow> Scene \<Rightarrow> string \<Rightarrow> addr option option" where
  "FindNodeByName k h s nm =
     ForEachNode k h s (\<lambda>node result. if GetName h node = nm then Some node else result) None"

section \<open>Loading a document\<close>

text \<open>The number of values in a document; the recursion of \<open>Node::Deserialize\<close> descends it.\<close>

fun jsize :: "'a json \<Rightarrow> nat" where
  "jsize (JArray js) = Suc (sum_list (map jsize js))"
| "jsize (JObject kvs) = Suc (sum_list (map (\<lambda>kv. jsize (snd kv)) kvs))"
| "jsize j = 1"

lemma jsize_pos: "0 < jsize j"
  by (cases j) simp_all

lemma jsize_member: "v \<in> set vs \<Longrightarrow> jsize v \<le> sum_list (map jsize vs)"
  by (induction vs) auto

lemma jsize_json_at: "json_at j k = Inr v \<Longrightarrow> jsize v < jsize j"
proof (cases j)
  case (JObject kvs)
  assume "json_at j k = Inr v"
  with JObject have "map_of kvs k = Some v"
    by (simp add: json_at_def split: option.splits)
  then have "(k, v) \<in> set kvs"
    by (rule map_of_SomeD)
  then have "v \<in> set (map snd kvs)"
    by force
  then have "jsize v \<le> sum_list (map jsize (map snd kvs))"
    by (rule jsize_member)
  with JObject show ?thesis
    by (simp add: comp_def)
qed (simp_all add: json_at_def)

lemma jsize_json_items: "sum_list (map jsize (json_items j)) \<le> jsize j"
  by (cases j) (simp_all add: json_items_def comp_def)

text \<open>The loop over \<open>j["components"]\<close>; only the type name "Transform" is recognised.\<close>

definition read_string :: "'a json \<Rightarrow> string \<Rightarrow> error + string" where
  "read_string j k = (case json_at j k of Inl e \<Rightarrow> Inl e | Inr v \<Rightarrow> get_string v)"

definition read_bool :: "'a json \<Rightarrow> string \<Rightarrow> error + bool" where
  "read_bool j k = (case json_at j k of Inl e \<Rightarrow> Inl e | Inr v \<Rightarrow> get_bool v)"

fun Deserialize_components ::
  "'a::{zero,one} json list \<Rightarrow> addr \<Rightarrow> 'a heap \<Rightarrow> error \<times> 'a heap + 'a heap" where
  "Deserialize_components [] a h = Inr h"
| "Deserialize_components (componentJson # rest) a h =
     (case read_string componentJson ''type'' of
        Inl e \<Rightarrow> Inl (e, h)
      | Inr typeName \<Rightarrow>
          if typeName = ''Transform'' then
            (case GetTransform h a of
               None \<Rightarrow> Deserialize_components rest a h
             | Some t \<Rightarrow>
                 (case json_at componentJson ''data'' of
                    Inl e \<Rightarrow> Inl (e, h)
                  | Inr d \<Rightarrow>
                      (case Transform_Deserialize_at d t h of
                         Inl eh \<Rightarrow> Inl eh
                       | Inr h' \<Rightarrow> Deserialize_components rest a h')))
          else Deserialize_components rest a h)"

text \<open>
  The statements of \<open>Node::Deserialize\<close> before the loop over the children: name, active
  flag, the component map cleared but for the Transform, the components, and the children
  cleared.
\<close>

definition keep_Transform_only :: "Node \<Rightarrow> Node" where
  "keep_Transform_only N =
     (case transform N of
        None \<Rightarrow> N\<lparr>components := Map.empty\<rparr>
      | Some transformComponent \<Rightarrow>
          N\<lparr>components := Map.empty(TypeTransform \<mapsto> transformComponent)\<rparr>)"

definition Deserialize_head ::
  "'a::{zero,one} json \<Rightarrow> addr \<Rightarrow> 'a heap \<Rightarrow> error \<times> 'a heap + 'a heap" where
  "Deserialize_head j a h =
     (case read_string j ''name'' of
        Inl e \<Rightarrow> Inl (e, h)
      | Inr nm \<Rightarrow>
          let h1 = modify_node a (\<lambda>N. N\<lparr>name := nm\<rparr>) h in
     (case read_bool j ''active'' of
        Inl e \<Rightarrow> Inl (e, h1)
      | Inr ac \<Rightarrow>
          let h2 = modify_node a (\<lambda>N. N\<lparr>active := ac\<rparr>) h1;
              h3 = modify_node a keep_Transform_only h2 in
     (case json_at j ''components'' of
        Inl e \<Rightarrow> Inl (e, h3)
      | Inr cs \<Rightarrow>
     (case Deserialize_components (json_items cs) a h3 of
        Inl eh \<Rightarrow> Inl eh
      | Inr h4 \<Rightarrow> Inr (modify_node a (\<lambda>N. N\<lparr>children := []\<rparr>) h4)))))"

text \<open>
  \<open>Node::Deserialize\<close> and its loop over \<open>j["children"]\<close>: each child is a new
  \<open>Node\<close>, loaded, appended, and given its parent pointer directly.
\<close>

function Node_Deserialize ::
    "'a::{zero,one} json \<Rightarrow> addr \<Rightarrow> 'a heap \<Rightarrow> error \<times> 'a heap + 'a heap"
  and Deserialize_children ::
    "'a::{zero,one} json list \<Rightarrow> addr \<Rightarrow> 'a heap \<Rightarrow> error \<times> 'a heap + 'a heap" where
  "Node_Deserialize j a h =
     (case Deserialize_head j a h of
        Inl eh \<Rightarrow> Inl eh
      | Inr h5 \<Rightarrow>
          (case json_at j ''children'' of
             Inl e \<Rightarrow> Inl (e, h5)
           | Inr ks \<Rightarrow> Deserialize_children (json_items ks) a h5))"
| "Deserialize_children [] a h = Inr h"
| "Deserialize_children (childJson # rest) a h =
     (let (child, h1) = make_shared_Node ''Node'' h
      in case Node_Deserialize childJson child h1 of
           Inl eh \<Rightarrow> Inl eh
         | Inr h2 \<Rightarrow>
             Deserialize_children rest a
               (modify_node child (\<lambda>N. N\<lparr>parent := weak_from_this h2 a\<rparr>)
                  (AddChild a child h2)))"
  by pat_completeness auto
termination
proof (relation "measure (\<lambda>x. case x of
          Inl (j, a, h) \<Rightarrow> 2 * jsize j
        | Inr (js, a, h) \<Rightarrow> Suc (2 * sum_list (map jsize js)))")
  show "wf (measure (\<lambda>x. case x of
          Inl (j, a, h) \<Rightarrow> 2 * jsize j
        | Inr (js, a, h) \<Rightarrow> Suc (2 * sum_list (map jsize js))))"
    by simp
next
  fix j :: "'a json" and a :: addr and h h5 :: "'a heap" and ks :: "'a json"
  assume "json_at j ''children'' = Inr ks"
  then have "jsize ks < jsize j"
    by (rule jsize_json_at)
  moreover have "sum_list (map jsize (json_items ks)) \<le> jsize ks"
    by (rule jsize_json_items)
  ultimately show "(Inr (json_items ks, a, h5), Inl (j, a, h)) \<in> measure (\<lambda>x. case x of
          Inl (j, a, h) \<Rightarrow> 2 * jsize j
        | Inr (js, a, h) \<Rightarrow> Suc (2 * sum_list (map jsize js)))"
    by simp
next
  fix childJson :: "'a json" and rest :: "'a json list" and a child :: addr
    and h h1 :: "'a heap"
  show "(Inl (childJson, child, h1), Inr (childJson # rest, a, h)) \<in> measure (\<lambda>x. case x of
          Inl (j, a, h) \<Rightarrow> 2 * jsize j
        | Inr (js, a, h) \<Rightarrow> Suc (2 * sum_list (map jsize js)))"
    by simp
next
  fix childJson :: "'a json" and rest :: "'a json list" and a child :: addr
    and h h2 :: "'a heap"
  have "0 < jsize childJson"
    by (rule jsize_pos)
  then show "(Inr (rest, a,
                 modify_node child (\<lambda>N. N\<lparr>parent := weak_from_this h2 a\<rparr>)
                   (AddChild a child h2)),
              Inr (childJson # rest, a, h)) \<in> measure (\<lambda>x. case x of
          Inl (j, a, h) \<Rightarrow> 2 * jsize j
        | Inr (js, a, h) \<Rightarrow> Suc (2 * sum_list (map jsize js)))"
    by simp
qed

declare Node_Deserialize.simps [simp del]

text \<open>
  \<open>Scene::Deserialize\<close>: the root list is cleared, then one new \<open>Node\<close> is loaded and
  pushed for each element of \<open>j["rootNodes"]\<close>.
\<close>

fun Deserialize_roots ::
  "'a::{zero,one} json list \<Rightarrow> 'a heap \<Rightarrow> Scene \<Rightarrow>
   error \<times> 'a heap \<times> Scene + 'a heap \<times> Scene" where
  "Deserialize_roots [] h s = Inr (h, s)"
| "Deserialize_roots (nodeJson # rest) h s =
     (let (node, h1) = make_shared_Node ''Node'' h
      in case Node_Deserialize nodeJson node h1 of
           Inl (e, h2) \<Rightarrow> Inl (e, h2, s)
         | Inr h2 \<Rightarrow> Deserialize_roots rest h2 (s\<lparr>rootNodes := rootNodes s @ [node]\<rparr>))"

definition Scene_Deserialize ::
  "'a::{zero,one} json \<Rightarrow> 'a heap \<Rightarrow> Scene \<Rightarrow>
   error \<times> 'a heap \<times> Scene + 'a heap \<times> Scene" where
  "Scene_Deserialize j h s =
     (let s0 = s\<lparr>rootNodes := []\<rparr>
      in case json_at j ''rootNodes'' of
           Inl e \<Rightarrow> Inl (e, h, s0)
         | Inr rs \<Rightarrow> Deserialize_roots (json_items rs) h s0)"

text \<open>\<open>Scene::CreateNode\<close>, without and with a parent.\<close>

definition CreateNode :: "string \<Rightarrow> 'a::{zero,one} heap \<Rightarrow> Scene \<Rightarrow> addr \<times> 'a heap \<times> Scene" where
  "CreateNode nm h s =
     (let (node, h1) = make_shared_Node nm h
      in (node, h1, s\<lparr>rootNodes := rootNodes s @ [node]\<rparr>))"

definition CreateNode_under ::
  "nat \<Rightarrow> addr option \<Rightarrow> string \<Rightarrow> 'a::{zero,one,plus,times} heap \<Rightarrow> Scene \<Rightarrow>
   (error \<times> 'a heap \<times> Scene + addr \<times> 'a heap \<times> Scene) option" where
  "CreateNode_under k parentNode nm h s =
     (let (node, h1) = make_shared_Node nm h
      in case parentNode of
           None \<Rightarrow> Some (Inr (node, h1, s\<lparr>rootNodes := rootNodes s @ [node]\<rparr>))
         | Some p \<Rightarrow>
             (case SetParent k node (Some p) h1 of
                None \<Rightarrow> None
              | Some (Inl (e, h2)) \<Rightarrow> Some (Inl (e, h2, s))
              | Some (Inr h2) \<Rightarrow> Some (Inr (node, h2, s))))"

definition empty_heap :: "'a heap" where
  "empty_heap = \<lparr>nodes = [], transforms = []\<rparr>"

definition empty_scene :: Scene where
  "empty_scene = \<lparr>rootNodes = []\<rparr>"

definition IsActive :: "'a heap \<Rightarrow> addr \<Rightarrow> bool" where
  "IsActive h a = (case node_at h a of None \<Rightarrow> False | Some N \<Rightarrow> active N)"

section \<open>Scenes used as examples\<close>

text \<open>
  \<open>P = scene.CreateNode("P")\<close> followed by \<open>C = scene.CreateNode(P, "C")\<close>, from an empty
  scene: \<open>P\<close> is node 0, \<open>C\<close> is node 1, and each holds the Transform of the same number.
\<close>

definition heap_P :: "int heap" where
  "heap_P = fst (snd (CreateNode ''P'' empty_heap empty_scene))"

definition scene_P :: Scene where
  "scene_P = snd (snd (CreateNode ''P'' (empty_heap :: int heap) empty_scene))"

definition heap_PC :: "int heap" where
  "heap_PC =
     (case CreateNode_under 1 (Some 0) ''C'' heap_P scene_P of
        Some (Inr (c, h, s)) \<Rightarrow> h
      | _ \<Rightarrow> heap_P)"

text \<open>Two roots with the same name: \<open>scene.CreateNode("A")\<close> twice.\<close>

definition heap_AA :: "int heap" where
  "heap_AA = fst (snd (case CreateNode ''A'' empty_heap empty_scene of
                         (a, h, s) \<Rightarrow> CreateNode ''A'' h s))"

definition scene_AA :: Scene where
  "scene_AA = snd (snd (case CreateNode ''A'' (empty_heap :: int heap) empty_scene of
                          (a, h, s) \<Rightarrow> CreateNode ''A'' h s))"

text \<open>
  The example of the specification, with nodes made by \<open>CreateNode\<close> only: \<open>P\<close> gets the
  local position (1,2,3) and the local scale (2,2,2), its child \<open>C\<close> the local position
  (1,0,0).
\<close>

definition heap_example :: "int heap" where
  "heap_example =
     SetLocalPosition 1 (Vec3 1 0 0)
       (SetLocalScale 0 (Vec3 2 2 2) (SetLocalPosition 0 (Vec3 1 2 3) heap_PC))"

text \<open>
  \<open>C = scene.CreateNode("C")\<close>, the local position of \<open>C\<close> set to (7,8,9), then
  \<open>P = scene.CreateNode("P")\<close>: two roots, \<open>C\<close> is node 0 and \<open>P\<close> is node 1.
\<close>

definition heap_CP :: "int heap" where
  "heap_CP =
     (case CreateNode ''C'' empty_heap empty_scene of
        (c, h1, s1) \<Rightarrow> fst (snd (CreateNode ''P'' (SetLocalPosition 0 (Vec3 7 8 9) h1) s1)))"

text \<open>
  The scene \<open>P\<close>, \<open>C\<close> after both nodes were given a second Transform by
  \<open>AddComponent<Transform>()\<close> (Transforms 1 and 3, whose owners are live; 0 and 2 are the
  ones the constructors made and the second call replaced). \<open>P\<close> has local position
  (1,2,3) and local scale (2,2,2), its world values are up to date; \<open>C\<close> has local position
  (1,0,0) and is dirty.
\<close>

definition heap_live :: "int heap" where
  "heap_live =
     \<lparr>nodes =
        [Some \<lparr>weak_this = Some 0, name = ''P'', parent = None, children = [1],
               components = Map.empty(TypeTransform \<mapsto> 1), transform = Some 1,
               active = True\<rparr>,
         Some \<lparr>weak_this = Some 1, name = ''C'', parent = Some 0, children = [],
               components = Map.empty(TypeTransform \<mapsto> 3), transform = Some 3,
               active = True\<rparr>],
      transforms =
        [Some \<lparr>owner = None, localPosition = Vec3 0 0 0, localRotation = Vec3 0 0 0,
               localScale = Vec3 1 1 1, dirty = False, worldPosition = Vec3 0 0 0,
               worldRotation = Vec3 0 0 0, worldScale = Vec3 1 1 1\<rparr>,
         Some \<lparr>owner = Some 0, localPosition = Vec3 1 2 3, localRotation = Vec3 0 0 0,
               localScale = Vec3 2 2 2, dirty = False, worldPosition = Vec3 1 2 3,
               worldRotation = Vec3 0 0 0, worldScale = Vec3 2 2 2\<rparr>,
         Some \<lparr>owner = None, localPosition = Vec3 0 0 0, localRotation = Vec3 0 0 0,
               localScale = Vec3 1 1 1, dirty = False, worldPosition = Vec3 0 0 0,
               worldRotation = Vec3 0 0 0, worldScale = Vec3 1 1 1\<rparr>,
         Some \<lparr>owner = Some 1, localPosition = Vec3 1 0 0, localRotation = Vec3 0 0 0,
               localScale = Vec3 1 1 1, dirty = True, worldPosition = Vec3 1 2 3,
               worldRotation = Vec3 0 0 0, worldScale = Vec3 2 2 2\<rparr>]\<rparr>"

text \<open>
  Two roots \<open>P\<close> and \<open>C\<close> whose Transforms (1 and 3) were attached by
  \<open>AddComponent<Transform>()\<close> after construction, so that their owners are live. Both are
  clean: \<open>P\<close> has local and world rotation (10,0,0), \<open>C\<close> has local and world rotation
  (1,0,0).
\<close>

definition heap_apart :: "int heap" where
  "heap_apart =
     \<lparr>nodes =
        [Some \<lparr>weak_this = Some 0, name = ''P'', parent = None, children = [],
               components = Map.empty(TypeTransform \<mapsto> 1), transform = Some 1,
               active = True\<rparr>,
         Some \<lparr>weak_this = Some 1, name = ''C'', parent = None, children = [],
               components = Map.empty(TypeTransform \<mapsto> 3), transform = Some 3,
               active = True\<rparr>],
      transforms =
        [Some \<lparr>owner = None, localPosition = Vec3 0 0 0, localRotation = Vec3 0 0 0,
               localScale = Vec3 1 1 1, dirty = False, worldPosition = Vec3 0 0 0,
               worldRotation = Vec3 0 0 0, worldScale = Vec3 1 1 1\<rparr>,
         Some \<lparr>owner = Some 0, localPosition = Vec3 0 0 0, localRotation = Vec3 10 0 0,
               localScale = Vec3 1 1 1, dirty = False, worldPosition = Vec3 0 0 0,
               worldRotation = Vec3 10 0 0, worldScale = Vec3 1 1 1\<rparr>,
         Some \<lparr>owner = None, localPosition = Vec3 0 0 0, localRotation = Vec3 0 0 0,
               localScale = Vec3 1 1 1, dirty = False, worldPosition = Vec3 0 0 0,
               worldRotation = Vec3 0 0 0, worldScale = Vec3 1 1 1\<rparr>,
         Some \<lparr>owner = Some 1, localPosition = Vec3 0 0 0, localRotation = Vec3 1 0 0,
               localScale = Vec3 1 1 1, dirty = False, worldPosition = Vec3 0 0 0,
               worldRotation = Vec3 1 0 0, worldScale = Vec3 1 1 1\<rparr>]\<rparr>"

section \<open>The order of a traversal\<close>

text \<open>
  The subtree below a node has depth at most \<open>k\<close> and each of its shared pointers leads to
  a node.
\<close>

fun subtree_within :: "nat \<Rightarrow> 'a heap \<Rightarrow> addr \<Rightarrow> bool" where
  "subtree_within 0 h a = False"
| "subtree_within (Suc k) h a =
     (case node_at h a of
        None \<Rightarrow> False
      | Some N \<Rightarrow> list_all (subtree_within k h) (children N))"

text \<open>
  Pre-order, in the words of the specification: a node before its children, the children in
  their order. This definition is the reference that \<open>collect\<close> is compared with.
\<close>

fun preorder :: "nat \<Rightarrow> 'a heap \<Rightarrow> addr \<Rightarrow> addr list" where
  "preorder 0 h a = []"
| "preorder (Suc k) h a = a # concat (map (preorder k h) (GetChildren h a))"

section \<open>Propagation of the active flag\<close>

text \<open>
  A path of child links that starts at \<open>a\<close> and runs through active nodes only; the node
  it ends at may have either flag.
\<close>

fun active_path :: "'a heap \<Rightarrow> addr \<Rightarrow> addr list \<Rightarrow> bool" where
  "active_path h a [] = True"
| "active_path h a (c # cs) =
     (IsActive h a \<and> c \<in> set (GetChildren h a) \<and> active_path h c cs)"

text \<open>
  What a call of \<open>SetActive\<close> with value \<open>v\<close> changes: the flags of some nodes go to \<open>v\<close>
  and nothing else moves (\<open>flags_to\<close>), and a node whose flag went to \<open>v\<close> has all its
  children at \<open>v\<close> as well (\<open>cascade_post\<close>).
\<close>

definition flag_is :: "bool \<Rightarrow> 'a heap \<Rightarrow> addr \<Rightarrow> bool" where
  "flag_is v h b = (case node_at h b of None \<Rightarrow> False | Some B \<Rightarrow> active B = v)"

definition flags_to :: "bool \<Rightarrow> 'a heap \<Rightarrow> 'a heap \<Rightarrow> bool" where
  "flags_to v h h' \<longleftrightarrow>
     (\<forall>b. node_at h' b = node_at h b \<or>
          (\<exists>B. node_at h b = Some B \<and> active B \<noteq> v \<and> node_at h' b = Some (B\<lparr>active := v\<rparr>)))"

definition cascade_post :: "bool \<Rightarrow> 'a heap \<Rightarrow> 'a heap \<Rightarrow> bool" where
  "cascade_post v h h' \<longleftrightarrow>
     flags_to v h h' \<and>
     (\<forall>b B. node_at h b = Some B \<and> active B \<noteq> v \<and> flag_is v h' b
        \<longrightarrow> (\<forall>c \<in> set (children B). flag_is v h' c))"

text \<open>
  \<open>P->SetActive(false)\<close> and then \<open>C->SetActive(true)\<close> on the scene \<open>P\<close>, \<open>C\<close>: an inactive
  parent with an active child.
\<close>

definition heap_PC_child_on :: "int heap" where
  "heap_PC_child_on =
     (case SetActive 2 0 False heap_PC of
        None \<Rightarrow> heap_PC
      | Some h \<Rightarrow> (case SetActive 1 1 True h of None \<Rightarrow> h | Some h' \<Rightarrow> h'))"

text \<open>
  \<open>A\<close> with the child \<open>B\<close>, \<open>B\<close> with the child \<open>C\<close>, and a second root \<open>D\<close>, made by
  \<open>CreateNode\<close>; then \<open>B->SetActive(false)\<close> and \<open>C->SetActive(true)\<close>, so that \<open>B\<close> is the
  only inactive node.
\<close>

definition heap_ABCD :: "int heap" where
  "heap_ABCD =
     \<lparr>nodes =
        [Some \<lparr>weak_this = Some 0, name = ''A'', parent = None, children = [1],
               components = Map.empty(TypeTransform \<mapsto> 0), transform = Some 0,
               active = True\<rparr>,
         Some \<lparr>weak_this = Some 1, name = ''B'', parent = Some 0, children = [2],
               components = Map.empty(TypeTransform \<mapsto> 1), transform = Some 1,
               active = False\<rparr>,
         Some \<lparr>weak_this = Some 2, name = ''C'', parent = Some 1, children = [],
               components = Map.empty(TypeTransform \<mapsto> 2), transform = Some 2,
               active = True\<rparr>,
         Some \<lparr>weak_this = Some 3, name = ''D'', parent = None, children = [],
               components = Map.empty(TypeTransform \<mapsto> 3), transform = Some 3,
               active = True\<rparr>],
      transforms =
        [Some \<lparr>owner = None, localPosition = Vec3 0 0 0, localRotation = Vec3 0 0 0,
               localScale = Vec3 1 1 1, dirty = False, worldPosition = Vec3 0 0 0,
               worldRotation = Vec3 0 0 0, worldScale = Vec3 1 1 1\<rparr>,
         Some \<lparr>owner = None, localPosition = Vec3 0 0 0, localRotation = Vec3 0 0 0,
               localScale = Vec3 1 1 1, dirty = True, worldPosition = Vec3 0 0 0,
               worldRotation = Vec3 0 0 0, worldScale = Vec3 1 1 1\<rparr>,
         Some \<lparr>owner = None, localPosition = Vec3 0 0 0, localRotation = Vec3 0 0 0,
               localScale = Vec3 1 1 1, dirty = True, worldPosition = Vec3 0 0 0,
               worldRotation = Vec3 0 0 0, worldScale = Vec3 1 1 1\<rparr>,
         Some \<lparr>owner = None, localPosition = Vec3 0 0 0, localRotation = Vec3 0 0 0,
               localScale = Vec3 1 1 1, dirty = False, worldPosition = Vec3 0 0 0,
               worldRotation = Vec3 0 0 0, worldScale = Vec3 1 1 1\<rparr>]\<rparr>"

text \<open>
  Every pointer in a list of children leads to a node, and the number of active nodes of a
  heap: \<open>SetActive(false)\<close> goes on only through active nodes and switches each one off, so
  it returns on a graph with cycles as well.
\<close>

definition is_node :: "'a heap \<Rightarrow> addr \<Rightarrow> bool" where
  "is_node h a = (case node_at h a of None \<Rightarrow> False | Some N \<Rightarrow> True)"

definition links_live :: "'a heap \<Rightarrow> bool" where
  "links_live h =
     list_all
       (\<lambda>cell. case cell of None \<Rightarrow> True | Some N \<Rightarrow> list_all (is_node h) (children N))
       (nodes h)"

definition is_active_cell :: "Node option \<Rightarrow> bool" where
  "is_active_cell cell = (case cell of None \<Rightarrow> False | Some N \<Rightarrow> active N)"

definition active_count :: "'a heap \<Rightarrow> nat" where
  "active_count h = length (filter is_active_cell (nodes h))"

text \<open>
  \<open>A = scene.CreateNode("A")\<close>, \<open>B = scene.CreateNode(A, "B")\<close> and then \<open>A->SetParent(B)\<close>:
  each node is a child of the other.
\<close>

definition heap_cycle :: "int heap" where
  "heap_cycle =
     \<lparr>nodes =
        [Some \<lparr>weak_this = Some 0, name = ''A'', parent = Some 1, children = [1],
               components = Map.empty(TypeTransform \<mapsto> 0), transform = Some 0,
               active = True\<rparr>,
         Some \<lparr>weak_this = Some 1, name = ''B'', parent = Some 0, children = [0],
               components = Map.empty(TypeTransform \<mapsto> 1), transform = Some 1,
               active = True\<rparr>],
      transforms =
        [Some \<lparr>owner = None, localPosition = Vec3 0 0 0, localRotation = Vec3 0 0 0,
               localScale = Vec3 1 1 1, dirty = True, worldPosition = Vec3 0 0 0,
               worldRotation = Vec3 0 0 0, worldScale = Vec3 1 1 1\<rparr>,
         Some \<lparr>owner = None, localPosition = Vec3 0 0 0, localRotation = Vec3 0 0 0,
               localScale = Vec3 1 1 1, dirty = True, worldPosition = Vec3 0 0 0,
               worldRotation = Vec3 0 0 0, worldScale = Vec3 1 1 1\<rparr>]\<rparr>"

section \<open>What loading a document leaves unchanged\<close>

text \<open>
  The heap a call leaves behind, whether it returned, threw, or stopped at a failed
  assertion.
\<close>

fun heap_of :: "error \<times> 'a heap + 'a heap \<Rightarrow> 'a heap" where
  "heap_of (Inl (e, h)) = h"
| "heap_of (Inr h) = h"

text \<open>
  What loading leaves alone. \<open>unchanged_nodes a\<close>: every node that existed, except \<open>a\<close>;
  \<open>unchanged_transforms x\<close>: every Transform that existed, except the one \<open>x\<close> points to;
  \<open>node_kept\<close>: the node keeps its pointers, and its component map is either the old one or
  the old one cut down to the Transform; \<open>only_children\<close>: nothing but the list of children
  of the node has changed.
\<close>

definition unchanged_nodes :: "addr \<Rightarrow> 'a heap \<Rightarrow> 'a heap \<Rightarrow> bool" where
  "unchanged_nodes a h h' \<longleftrightarrow>
     length (nodes h) \<le> length (nodes h') \<and>
     (\<forall>b. b < length (nodes h) \<and> b \<noteq> a \<longrightarrow> node_at h' b = node_at h b)"

definition unchanged_transforms :: "addr option \<Rightarrow> 'a heap \<Rightarrow> 'a heap \<Rightarrow> bool" where
  "unchanged_transforms x h h' \<longleftrightarrow>
     length (transforms h) \<le> length (transforms h') \<and>
     (\<forall>t. t < length (transforms h) \<and> x \<noteq> Some t \<longrightarrow> transform_at h' t = transform_at h t)"

definition node_kept :: "addr \<Rightarrow> 'a heap \<Rightarrow> 'a heap \<Rightarrow> bool" where
  "node_kept a h h' \<longleftrightarrow>
     (case node_at h a of
        None \<Rightarrow> node_at h' a = None
      | Some N \<Rightarrow>
        (\<exists>N'. node_at h' a = Some N' \<and> weak_this N' = weak_this N \<and> parent N' = parent N \<and>
              transform N' = transform N \<and>
              (components N' = components N \<or>
               components N' = components (keep_Transform_only N))))"

definition only_children :: "addr \<Rightarrow> 'a heap \<Rightarrow> 'a heap \<Rightarrow> bool" where
  "only_children a h h' \<longleftrightarrow>
     (case node_at h a of
        None \<Rightarrow> node_at h' a = None
      | Some N \<Rightarrow> (\<exists>cs. node_at h' a = Some (N\<lparr>children := cs\<rparr>)))"

definition node_frame :: "addr \<Rightarrow> 'a heap \<Rightarrow> 'a heap \<Rightarrow> bool" where
  "node_frame a h h' \<longleftrightarrow>
     unchanged_nodes a h h' \<and> unchanged_transforms (GetTransform h a) h h' \<and> node_kept a h h'"

definition loop_frame :: "addr \<Rightarrow> 'a heap \<Rightarrow> 'a heap \<Rightarrow> bool" where
  "loop_frame a h h' \<longleftrightarrow>
     unchanged_nodes a h h' \<and> unchanged_transforms None h h' \<and> only_children a h h'"

text \<open>The loop over the components touches the Transform of the node and nothing else.\<close>

definition comp_frame :: "addr \<Rightarrow> 'a heap \<Rightarrow> 'a heap \<Rightarrow> bool" where
  "comp_frame a h h' \<longleftrightarrow>
     nodes h' = nodes h \<and> length (transforms h') = length (transforms h) \<and>
     (\<forall>t. GetTransform h a \<noteq> Some t \<longrightarrow> transform_at h' t = transform_at h t)"


text \<open>The statements before the loop over the children.\<close>

definition head_frame :: "addr \<Rightarrow> 'a heap \<Rightarrow> 'a heap \<Rightarrow> bool" where
  "head_frame a h h' \<longleftrightarrow>
     length (nodes h') = length (nodes h) \<and>
     (\<forall>b. b \<noteq> a \<longrightarrow> node_at h' b = node_at h b) \<and>
     node_kept a h h' \<and>
     length (transforms h') = length (transforms h) \<and>
     (\<forall>t. GetTransform h a \<noteq> Some t \<longrightarrow> transform_at h' t = transform_at h t)"


text \<open>The node that \<open>std::make_shared<Node>(name)\<close> leaves in the new cell.\<close>

definition fresh_Node :: "string \<Rightarrow> addr \<Rightarrow> addr \<Rightarrow> Node" where
  "fresh_Node nm a t =
     \<lparr>weak_this = Some a, name = nm, parent = None, children = [],
      components = Map.empty(TypeTransform \<mapsto> t), transform = Some t, active = True\<rparr>"


text \<open>A document of a node without components and children.\<close>

definition doc_leaf :: "int json" where
  "doc_leaf =
     JObject [(''active'', JBool False), (''children'', JArray []),
              (''components'', JArray []), (''name'', JString ''m'')]"

section \<open>The tree a scene shows\<close>

text \<open>
  What a client can read of a tree of nodes through \<open>GetName\<close>, \<open>IsActive\<close>,
  \<open>GetComponent<Transform>\<close> with the three local getters, and \<open>GetChildren\<close>: name, active
  flag, the local values of the Transform (if the node has one) and the views of the children
  in order. The first argument bounds the depth, as for \<open>Node_Serialize\<close>.
\<close>

datatype 'a ntree =
  NTree string bool "('a Vec3 \<times> 'a Vec3 \<times> 'a Vec3) option" "'a ntree list"

definition local_values :: "'a Transform \<Rightarrow> 'a Vec3 \<times> 'a Vec3 \<times> 'a Vec3" where
  "local_values T = (localPosition T, localRotation T, localScale T)"

definition locals_at :: "'a heap \<Rightarrow> addr \<Rightarrow> ('a Vec3 \<times> 'a Vec3 \<times> 'a Vec3) option" where
  "locals_at h t = map_option local_values (transform_at h t)"

definition node_locals :: "'a heap \<Rightarrow> Node \<Rightarrow> ('a Vec3 \<times> 'a Vec3 \<times> 'a Vec3) option" where
  "node_locals h N =
     (case components N TypeTransform of None \<Rightarrow> None | Some t \<Rightarrow> locals_at h t)"

fun node_view :: "nat \<Rightarrow> 'a heap \<Rightarrow> addr \<Rightarrow> 'a ntree option" where
  "node_view 0 h a = None"
| "node_view (Suc k) h a =
     (case node_at h a of
        None \<Rightarrow> None
      | Some N \<Rightarrow>
          (case map_option_list (node_view k h) (children N) of
             None \<Rightarrow> None
           | Some ts \<Rightarrow> Some (NTree (name N) (active N) (node_locals h N) ts)))"

definition scene_view :: "nat \<Rightarrow> 'a heap \<Rightarrow> Scene \<Rightarrow> 'a ntree list option" where
  "scene_view k h s = map_option_list (node_view k h) (rootNodes s)"

text \<open>
  The tree a document of the original tree is expected to give back: the same tree, where a
  node that had lost its Transform has the one its constructor made.
\<close>

definition default_locals :: "'a::{zero,one} Vec3 \<times> 'a Vec3 \<times> 'a Vec3" where
  "default_locals = (Vec3 0 0 0, Vec3 0 0 0, Vec3 1 1 1)"

fun loaded :: "'a::{zero,one} ntree \<Rightarrow> 'a ntree" where
  "loaded (NTree nm ac tr ts) =
     NTree nm ac (Some (case tr of None \<Rightarrow> default_locals | Some v \<Rightarrow> v)) (map loaded ts)"

text \<open>
  The part of a node that a view reads, and two relations on heaps for the nodes from the
  address \<open>lo\<close> and the Transforms from the address \<open>tlo\<close> on: the nodes point to children and
  Transforms in that part of the heap, and the second heap shows of that part what the
  first one does.
\<close>

definition node_obs :: "'a heap \<Rightarrow> addr \<Rightarrow> (string \<times> bool \<times> addr list \<times> addr option) option" where
  "node_obs h a =
     map_option (\<lambda>N. (name N, active N, children N, components N TypeTransform)) (node_at h a)"

definition closed_from :: "addr \<Rightarrow> addr \<Rightarrow> 'a heap \<Rightarrow> bool" where
  "closed_from lo tlo h \<longleftrightarrow>
     (\<forall>x N. lo \<le> x \<and> node_at h x = Some N \<longrightarrow>
        (\<forall>c \<in> set (children N). lo \<le> c \<and> c < length (nodes h)) \<and>
        (\<forall>t. components N TypeTransform = Some t \<longrightarrow> tlo \<le> t \<and> t < length (transforms h)))"

definition agree_from :: "addr \<Rightarrow> addr \<Rightarrow> 'a heap \<Rightarrow> 'a heap \<Rightarrow> bool" where
  "agree_from lo tlo h h' \<longleftrightarrow>
     (\<forall>x. lo \<le> x \<and> x < length (nodes h) \<longrightarrow> node_obs h' x = node_obs h x) \<and>
     (\<forall>t. tlo \<le> t \<and> t < length (transforms h) \<longrightarrow> locals_at h' t = locals_at h t)"

text \<open>
  What \<open>Node::Deserialize\<close> leaves of the node it was called on, in terms of the heap before
  the call: the node has its Transform, its children are new nodes, and the new nodes point
  to new nodes and new Transforms only.
\<close>

definition node_loaded :: "'a heap \<Rightarrow> addr \<Rightarrow> addr \<Rightarrow> 'a heap \<Rightarrow> bool" where
  "node_loaded h a t h' \<longleftrightarrow>
     (\<exists>N'. node_at h' a = Some N' \<and> components N' TypeTransform = Some t \<and>
           (\<forall>c \<in> set (children N'). length (nodes h) \<le> c \<and> c < length (nodes h'))) \<and>
     closed_from (length (nodes h)) (length (transforms h)) h'"

text \<open>
  Every shared pointer in a component map leads to an object, as a \<open>std::shared_ptr\<close> does.
\<close>

definition components_live :: "'a heap \<Rightarrow> bool" where
  "components_live h =
     list_all
       (\<lambda>cell. case cell of
                 None \<Rightarrow> True
               | Some N \<Rightarrow>
                   (case components N TypeTransform of
                      None \<Rightarrow> True
                    | Some t \<Rightarrow> (case transform_at h t of None \<Rightarrow> False | Some T \<Rightarrow> True)))
       (nodes h)"

text \<open>
  A scene to save: the root \<open>P\<close> with the child \<open>C\<close>, made by \<open>CreateNode\<close>; \<open>C\<close> has been
  deactivated and both Transforms have been given local values by the setters.
\<close>

definition heap_saved :: "int heap" where
  "heap_saved =
     \<lparr>nodes =
        [Some \<lparr>weak_this = Some 0, name = ''P'', parent = None, children = [1],
               components = Map.empty(TypeTransform \<mapsto> 0), transform = Some 0,
               active = True\<rparr>,
         Some \<lparr>weak_this = Some 1, name = ''C'', parent = Some 0, children = [],
               components = Map.empty(TypeTransform \<mapsto> 1), transform = Some 1,
               active = False\<rparr>],
      transforms =
        [Some \<lparr>owner = None, localPosition = Vec3 1 2 3, localRotation = Vec3 0 0 0,
               localScale = Vec3 2 2 2, dirty = True, worldPosition = Vec3 0 0 0,
               worldRotation = Vec3 0 0 0, worldScale = Vec3 1 1 1\<rparr>,
         Some \<lparr>owner = None, localPosition = Vec3 1 0 0, localRotation = Vec3 0 5 0,
               localScale = Vec3 1 1 1, dirty = True, worldPosition = Vec3 0 0 0,
               worldRotation = Vec3 0 0 0, worldScale = Vec3 1 1 1\<rparr>]\<rparr>"

definition scene_saved :: Scene where
  "scene_saved = \<lparr>rootNodes = [0]\<rparr>"

definition tree_saved :: "int ntree" where
  "tree_saved =
     NTree ''P'' True (Some (Vec3 1 2 3, Vec3 0 0 0, Vec3 2 2 2))
       [NTree ''C'' False (Some (Vec3 1 0 0, Vec3 0 5 0, Vec3 1 1 1)) []]"

section \<open>Store lemmas\<close>

lemma lookup_update:
  "lookup (cells[a := Some v]) b = (if b = a \<and> a < length cells then Some v else lookup cells b)"
  by (simp add: lookup_def)

lemma lookup_append:
  "lookup (cells @ [c]) b = (if b = length cells then c else lookup cells b)"
  by (auto simp: lookup_def nth_append)

lemma lookup_Some_less: "lookup cells a = Some v \<Longrightarrow> a < length cells"
  by (simp add: lookup_def split: if_splits)

lemma transform_at_modify_transform:
  "transform_at (modify_transform t f h) t' =
     (if t' = t then map_option f (transform_at h t) else transform_at h t')"
  by (auto simp: modify_transform_def transform_at_def lookup_update
      split: option.splits dest: lookup_Some_less)

lemma node_at_modify_transform: "node_at (modify_transform t f h) a = node_at h a"
  by (simp add: modify_transform_def node_at_def split: option.splits)

lemma node_at_modify_node:
  "node_at (modify_node a f h) b =
     (if b = a then map_option f (node_at h a) else node_at h b)"
  by (auto simp: modify_node_def node_at_def lookup_update
      split: option.splits dest: lookup_Some_less)

lemma transform_at_modify_node: "transform_at (modify_node a f h) t = transform_at h t"
  by (simp add: modify_node_def transform_at_def split: option.splits)

lemma transform_at_new_transform_cell:
  "transform_at (new_transform_cell T h) t =
     (if t = length (transforms h) then Some T else transform_at h t)"
  by (simp add: new_transform_cell_def transform_at_def lookup_append)

lemma node_at_new_transform_cell: "node_at (new_transform_cell T h) a = node_at h a"
  by (simp add: new_transform_cell_def node_at_def)

lemma node_at_new_node_cell:
  "node_at (new_node_cell N h) a = (if a = length (nodes h) then Some N else node_at h a)"
  by (simp add: new_node_cell_def node_at_def lookup_append)

lemma transform_at_new_node_cell: "transform_at (new_node_cell N h) t = transform_at h t"
  by (simp add: new_node_cell_def transform_at_def)

lemma length_nodes_simps:
  "length (nodes (new_node_cell N h)) = Suc (length (nodes h))"
  "length (nodes (new_transform_cell T h)) = length (nodes h)"
  "length (nodes (modify_node a f h)) = length (nodes h)"
  "length (nodes (modify_transform t g h)) = length (nodes h)"
  by (simp_all add: new_node_cell_def new_transform_cell_def modify_node_def
      modify_transform_def split: option.splits)

lemma length_transforms_simps:
  "length (transforms (new_node_cell N h)) = length (transforms h)"
  "length (transforms (new_transform_cell T h)) = Suc (length (transforms h))"
  "length (transforms (modify_node a f h)) = length (transforms h)"
  "length (transforms (modify_transform t g h)) = length (transforms h)"
  by (simp_all add: new_node_cell_def new_transform_cell_def modify_node_def
      modify_transform_def split: option.splits)

lemmas store_simps =
  transform_at_modify_transform node_at_modify_transform node_at_modify_node
  transform_at_modify_node transform_at_new_transform_cell node_at_new_transform_cell
  node_at_new_node_cell transform_at_new_node_cell length_nodes_simps length_transforms_simps

lemma lock_None: "lock h None = None"
  by (simp add: lock_def)

lemma lock_modify_transform: "lock (modify_transform t f h) w = lock h w"
  by (simp add: lock_def node_at_modify_transform cong: option.case_cong)

lemma lock_modify_node: "lock (modify_node a f h) w = lock h w"
  by (auto simp: lock_def node_at_modify_node split: option.splits)

lemma lock_new_transform_cell: "lock (new_transform_cell T h) w = lock h w"
  by (simp add: lock_def node_at_new_transform_cell cong: option.case_cong)

text \<open>
  The constructor is \<open>AddComponent<Transform>()\<close> run on the new object while its
  \<open>weak_this\<close> is still empty.
\<close>

lemma Node_ctor_AddComponent:
  fixes h :: "'a::{zero,one,plus,times} heap"
  shows "fst (Node_ctor nm h) = length (nodes h) \<and>
    AddComponent_Transform (Suc k) (length (nodes h)) (new_node_cell (Node_init nm) h)
     = Some (length (transforms h), snd (Node_ctor nm h))"
  by (simp add: Node_ctor_def AddComponent_Transform_def make_shared_Transform_def OnAttach_def
      Let_def weak_from_this_def Node_init_def store_simps lock_None)

section \<open>Vec3 documents\<close>




section \<open>World getters of a Transform without owner\<close>

text \<open>
  C10. When the owner pointer of a Transform is empty or has expired and the dirty flag is
  set, each of the three world getters clears the flag, changes nothing else, and returns
  the cached world value.
\<close>

theorem GetWorld_owner_expired:
  fixes h :: "'a::{plus,times} heap"
  assumes "transform_at h t = Some T" and "dirty T" and "lock h (owner T) = None"
  shows "GetWorldPosition (Suc k) t h =
           Some (worldPosition T, modify_transform t (\<lambda>T. T\<lparr>dirty := False\<rparr>) h) \<and>
         GetWorldRotation (Suc k) t h =
           Some (worldRotation T, modify_transform t (\<lambda>T. T\<lparr>dirty := False\<rparr>) h) \<and>
         GetWorldScale (Suc k) t h =
           Some (worldScale T, modify_transform t (\<lambda>T. T\<lparr>dirty := False\<rparr>) h) \<and>
         transform_at (modify_transform t (\<lambda>T. T\<lparr>dirty := False\<rparr>) h) t
           = Some (T\<lparr>dirty := False\<rparr>)"
  using assms
  by (simp add: GetWorldPosition_def GetWorldRotation_def GetWorldScale_def get_world_def
      transform_at_modify_transform)

theorem GetWorld_owner_expired_witness:
  "GetWorldPosition (Suc 0) 0
     (SetLocalPosition 0 (Vec3 5 5 5) (snd (make_shared_Node ''n'' (empty_heap :: int heap))))
   = Some (Vec3 0 0 0,
       modify_transform 0 (\<lambda>T. T\<lparr>dirty := False\<rparr>)
         (SetLocalPosition 0 (Vec3 5 5 5) (snd (make_shared_Node ''n'' empty_heap))))"
proof -
  let ?h = "SetLocalPosition 0 (Vec3 5 5 5) (snd (make_shared_Node ''n'' (empty_heap :: int heap)))"
  let ?T = "\<lparr>owner = None, localPosition = Vec3 5 5 (5::int),
           localRotation = Vec3 0 0 0, localScale = Vec3 1 1 1,
           dirty = True, worldPosition = Vec3 0 0 0,
           worldRotation = Vec3 0 0 0, worldScale = Vec3 1 1 1\<rparr>"
  have a: "transform_at ?h 0 = Some ?T"
    by code_simp
  have b: "dirty ?T" by simp
  have c: "lock ?h (owner ?T) = None" by (simp add: lock_def)
  show ?thesis
    using GetWorld_owner_expired [OF a b c, of 0] by simp
qed

section \<open>Detaching a node\<close>

text \<open>
  C6 at the scene \<open>P\<close>, \<open>C\<close>: \<open>C->SetParent(nullptr)\<close> removes \<open>C\<close> from the children of
  \<open>P\<close> but leaves the parent pointer of \<open>C\<close> in place, so \<open>GetParent()\<close> still returns \<open>P\<close>;
  \<open>C->RemoveParent()\<close> resets it.
\<close>

theorem SetParent_null_keeps_parent:
  "GetParent heap_PC 1 = Some 0 \<and> GetChildren heap_PC 0 = [1] \<and>
   (case SetParent 0 1 None heap_PC of
      Some (Inr h') \<Rightarrow> GetParent h' 1 = Some 0 \<and> GetChildren h' 0 = []
    | _ \<Rightarrow> False) \<and>
   (case RemoveParent 1 heap_PC of
      Inr h' \<Rightarrow> GetParent h' 1 = None \<and> GetChildren h' 0 = []
    | _ \<Rightarrow> False)"
  by code_simp

section \<open>Marking the children dirty\<close>

text \<open>
  C3 at the scene \<open>P\<close>, \<open>C\<close>: once a world getter has cleaned the Transform of \<open>C\<close>, each of
  the three local setters on the Transform of \<open>P\<close> sets the flag of \<open>P\<close>'s Transform and
  leaves the flag of \<open>C\<close>'s Transform clear. The Transform of \<open>P\<close> was attached inside the
  constructor of \<open>P\<close>, so its owner pointer is empty and the loop over the children of the
  owner is never entered.
\<close>

theorem SetLocal_child_stays_clean:
  "(case GetWorldPosition 1 1 heap_PC of
      Some (v, h) \<Rightarrow>
        GetChildren h 0 = [1] \<and>
        GetComponent_Transform h 0 = Some 0 \<and> GetComponent_Transform h 1 = Some 1 \<and>
        map_option owner (transform_at h 0) = Some None \<and>
        map_option dirty (transform_at (SetLocalPosition 0 (Vec3 1 2 3) h) 0) = Some True \<and>
        map_option dirty (transform_at (SetLocalPosition 0 (Vec3 1 2 3) h) 1) = Some False \<and>
        map_option dirty (transform_at (SetLocalRotation 0 (Vec3 1 2 3) h) 0) = Some True \<and>
        map_option dirty (transform_at (SetLocalRotation 0 (Vec3 1 2 3) h) 1) = Some False \<and>
        map_option dirty (transform_at (SetLocalScale 0 (Vec3 1 2 3) h) 0) = Some True \<and>
        map_option dirty (transform_at (SetLocalScale 0 (Vec3 1 2 3) h) 1) = Some False
    | None \<Rightarrow> False)"
  by code_simp

section \<open>Finding a node by name\<close>

lemma for_each_collect:
  assumes step: "\<And>c r. c \<in> set cs \<Longrightarrow> collect k h c r = Some (r @ preorder k h c)"
  shows "for_each (collect k h) cs r = Some (r @ concat (map (preorder k h) cs))"
  using step by (induction cs arbitrary: r) simp_all

text \<open>\<open>collect\<close> appends the pre-order listing of the subtree to the vector.\<close>

lemma collect_preorder:
  "subtree_within k h a \<Longrightarrow> collect k h a r = Some (r @ preorder k h a)"
proof (induction k arbitrary: a r)
  case 0
  then show ?case by simp
next
  case (Suc k)
  from Suc.prems obtain N where N: "node_at h a = Some N"
    and kids: "list_all (subtree_within k h) (children N)"
    by (auto split: option.splits)
  have "for_each (collect k h) (children N) (r @ [a])
          = Some ((r @ [a]) @ concat (map (preorder k h) (children N)))"
    by (rule for_each_collect) (use kids Suc.IH in \<open>simp add: list_all_iff\<close>)
  with N show ?case
    by (simp add: GetChildren_def)
qed

text \<open>A callback that overwrites its variable at every match ends with the last match.\<close>

lemma fold_last_match:
  "fold (\<lambda>node result. if P node then Some node else result) xs r =
     (case filter P xs of [] \<Rightarrow> r | m # ms \<Rightarrow> Some (last (m # ms)))"
  by (induction xs arbitrary: r) (auto split: list.splits)

text \<open>
  C5 (amended). In a scene whose trees have depth at most \<open>k\<close>, \<open>FindNodeByName\<close> returns
  the last node, in the pre-order traversal of the roots, whose name equals the given
  string, and null when no reachable node has that name.
\<close>

theorem FindNodeByName_last_match:
  assumes "list_all (subtree_within k h) (rootNodes s)"
  shows "FindNodeByName k h s nm =
           Some (case filter (\<lambda>a. GetName h a = nm)
                        (concat (map (preorder k h) (rootNodes s))) of
                   [] \<Rightarrow> None
                 | m # ms \<Rightarrow> Some (last (m # ms)))"
proof -
  have "CollectAllNodes k h s [] = Some ([] @ concat (map (preorder k h) (rootNodes s)))"
    unfolding CollectAllNodes_def
    by (rule for_each_collect) (use assms in \<open>simp add: list_all_iff collect_preorder\<close>)
  then show ?thesis
    by (simp add: FindNodeByName_def ForEachNode_def fold_last_match)
qed

theorem FindNodeByName_last_match_witness:
  "list_all (subtree_within 1 heap_AA) (rootNodes scene_AA) \<and>
   FindNodeByName 1 heap_AA scene_AA ''A'' = Some (Some 1)"
proof -
  have a: "list_all (subtree_within 1 heap_AA) (rootNodes scene_AA)"
    by code_simp
  have b: "(case filter (\<lambda>a. GetName heap_AA a = ''A'')
                  (concat (map (preorder 1 heap_AA) (rootNodes scene_AA))) of
              [] \<Rightarrow> None
            | m # ms \<Rightarrow> Some (last (m # ms))) = Some 1"
    by code_simp
  show ?thesis
    using a FindNodeByName_last_match [OF a, of "''A''"] b by simp
qed

text \<open>
  The claim as stated fails: with two roots named "A" the traversal visits node 0 first,
  and the node returned is node 1.
\<close>

theorem FindNodeByName_counterexample:
  "CollectAllNodes 1 heap_AA scene_AA [] = Some [0, 1] \<and>
   GetName heap_AA 0 = ''A'' \<and> GetName heap_AA 1 = ''A'' \<and>
   FindNodeByName 1 heap_AA scene_AA ''A'' = Some (Some 1)"
  by code_simp

section \<open>Deactivating a subtree\<close>

lemma flags_to_refl: "flags_to v h h"
  by (simp add: flags_to_def)

lemma flags_to_trans:
  assumes "flags_to v h h1" and "flags_to v h1 h2"
  shows "flags_to v h h2"
  unfolding flags_to_def
proof
  fix b
  let ?goal = "node_at h2 b = node_at h b \<or>
      (\<exists>B. node_at h b = Some B \<and> active B \<noteq> v \<and> node_at h2 b = Some (B\<lparr>active := v\<rparr>))"
  from assms(1) consider (same) "node_at h1 b = node_at h b"
    | (set) B where "node_at h b = Some B" "active B \<noteq> v"
        "node_at h1 b = Some (B\<lparr>active := v\<rparr>)"
    unfolding flags_to_def by blast
  then show ?goal
  proof cases
    case same
    from assms(2) consider (same2) "node_at h2 b = node_at h1 b"
      | (set2) B where "node_at h1 b = Some B" "active B \<noteq> v"
          "node_at h2 b = Some (B\<lparr>active := v\<rparr>)"
      unfolding flags_to_def by blast
    then show ?thesis
    proof cases
      case same2
      with same show ?thesis by simp
    next
      case set2
      from same set2(1) have "node_at h b = Some B" by simp
      with set2 show ?thesis by blast
    qed
  next
    case set
    from assms(2) consider (same2) "node_at h2 b = node_at h1 b"
      | (set2) B1 where "node_at h1 b = Some B1" "active B1 \<noteq> v"
      unfolding flags_to_def by blast
    then show ?thesis
    proof cases
      case same2
      with set show ?thesis by simp
    next
      case set2
      with set have "active (B\<lparr>active := v\<rparr>) \<noteq> v" by simp
      then show ?thesis by simp
    qed
  qed
qed

lemma flags_to_modify:
  "node_at h a = Some N \<Longrightarrow> active N \<noteq> v \<Longrightarrow>
   flags_to v h (modify_node a (\<lambda>N. N\<lparr>active := v\<rparr>) h)"
  by (auto simp: flags_to_def node_at_modify_node)

lemma flags_to_flag_is: "flags_to v h h' \<Longrightarrow> flag_is v h b \<Longrightarrow> flag_is v h' b"
  unfolding flags_to_def flag_is_def
  by (erule_tac x = b in allE) (auto split: option.splits)

lemma flags_to_children:
  "flags_to v h h' \<Longrightarrow> node_at h b = Some B \<Longrightarrow>
   \<exists>B'. node_at h' b = Some B' \<and> children B' = children B"
  unfolding flags_to_def
  by (erule_tac x = b in allE) auto

lemma flags_to_unchanged:
  "flags_to v h h' \<Longrightarrow> node_at h b = Some B \<Longrightarrow> \<not> flag_is v h' b \<Longrightarrow> node_at h' b = Some B"
  unfolding flags_to_def flag_is_def
  by (erule_tac x = b in allE) auto

lemma for_each_SetActive_post:
  fixes h1 :: "'a heap"
  assumes IH: "\<And>c (h :: 'a heap) h'.
      SetActive k c v h = Some h' \<Longrightarrow> cascade_post v h h' \<and> flag_is v h' c"
    and run: "for_each (\<lambda>child. SetActive k child v) cs h1 = Some h2"
  shows "cascade_post v h1 h2 \<and> (\<forall>c \<in> set cs. flag_is v h2 c)"
  using run
proof (induction cs arbitrary: h1)
  case Nil
  then show ?case
    by (auto simp: cascade_post_def flags_to_refl flag_is_def)
next
  case (Cons c cs)
  from Cons.prems obtain hm where first: "SetActive k c v h1 = Some hm"
    and rest: "for_each (\<lambda>child. SetActive k child v) cs hm = Some h2"
    by (auto split: option.splits)
  from IH [OF first] have p1: "cascade_post v h1 hm" and c1: "flag_is v hm c"
    by simp_all
  from Cons.IH [OF rest] have p2: "cascade_post v hm h2"
    and c2: "\<forall>c \<in> set cs. flag_is v h2 c"
    by simp_all
  from p1 have f1: "flags_to v h1 hm" by (simp add: cascade_post_def)
  from p2 have f2: "flags_to v hm h2" by (simp add: cascade_post_def)
  have f: "flags_to v h1 h2"
    using f1 f2 by (rule flags_to_trans)
  have kids: "\<forall>c \<in> set (children B). flag_is v h2 c"
    if b: "node_at h1 b = Some B" "active B \<noteq> v" "flag_is v h2 b" for b B
  proof (cases "flag_is v hm b")
    case True
    with p1 b have "\<forall>c \<in> set (children B). flag_is v hm c"
      unfolding cascade_post_def by blast
    with f2 show ?thesis
      by (blast intro: flags_to_flag_is)
  next
    case False
    with f1 b have "node_at hm b = Some B"
      by (blast intro: flags_to_unchanged)
    with p2 b show ?thesis
      unfolding cascade_post_def by blast
  qed
  from c1 f2 have "flag_is v h2 c"
    by (rule flags_to_flag_is [rotated])
  with c2 f kids show ?case
    unfolding cascade_post_def by auto
qed

lemma SetActive_post:
  "SetActive k a v h = Some h' \<Longrightarrow> cascade_post v h h' \<and> flag_is v h' a"
proof (induction k arbitrary: a h h')
  case 0
  then show ?case by simp
next
  case (Suc k)
  from Suc.prems obtain N where N: "node_at h a = Some N"
    by (auto split: option.splits)
  show ?case
  proof (cases "active N = v")
    case True
    with Suc.prems N show ?thesis
      by (auto simp: cascade_post_def flags_to_refl flag_is_def)
  next
    case False
    let ?h0 = "modify_node a (\<lambda>N. N\<lparr>active := v\<rparr>) h"
    from Suc.prems N False
    have run: "for_each (\<lambda>child. SetActive k child v) (children N) ?h0 = Some h'"
      by simp
    have loop: "cascade_post v ?h0 h' \<and> (\<forall>c \<in> set (children N). flag_is v h' c)"
      using Suc.IH run by (rule for_each_SetActive_post)
    have f0: "flags_to v h ?h0"
      using N False by (rule flags_to_modify)
    from loop have f1: "flags_to v ?h0 h'"
      by (simp add: cascade_post_def)
    have f: "flags_to v h h'"
      using f0 f1 by (rule flags_to_trans)
    have a0: "flag_is v ?h0 a"
      using N by (simp add: flag_is_def node_at_modify_node)
    have a': "flag_is v h' a"
      using f1 a0 by (rule flags_to_flag_is)
    have kids: "\<forall>c \<in> set (children B). flag_is v h' c"
      if b: "node_at h b = Some B" "active B \<noteq> v" "flag_is v h' b" for b B
    proof (cases "b = a")
      case True
      with b N loop show ?thesis by simp
    next
      case False
      with b have "node_at ?h0 b = Some B"
        by (simp add: node_at_modify_node)
      with loop b show ?thesis
        unfolding cascade_post_def by blast
    qed
    from f a' kids show ?thesis
      unfolding cascade_post_def by auto
  qed
qed

lemma cascade_path:
  assumes post: "cascade_post False h h'"
  shows "node_at h b = Some B \<Longrightarrow> active B \<Longrightarrow> flag_is False h' b \<Longrightarrow> active_path h b p
         \<Longrightarrow> flag_is False h' (last (b # p))"
proof (induction p arbitrary: b B)
  case Nil
  then show ?case by simp
next
  case (Cons c cs)
  from Cons.prems have c: "c \<in> set (children B)" and path: "active_path h c cs"
    by (simp_all add: GetChildren_def)
  from post Cons.prems c have c': "flag_is False h' c"
    unfolding cascade_post_def by blast
  show ?case
  proof (cases cs)
    case Nil
    with c' show ?thesis by simp
  next
    case (Cons d ds)
    with path have "IsActive h c" by simp
    then obtain C where "node_at h c = Some C" "active C"
      by (auto simp: IsActive_def split: option.splits)
    from Cons.IH [OF this c' path] show ?thesis
      by simp
  qed
qed

lemma subtree_within_flags_to:
  "flags_to v h h' \<Longrightarrow> subtree_within k h a \<Longrightarrow> subtree_within k h' a"
proof (induction k arbitrary: a)
  case 0
  then show ?case by simp
next
  case (Suc k)
  from Suc.prems obtain N where N: "node_at h a = Some N"
    and kids: "list_all (subtree_within k h) (children N)"
    by (auto split: option.splits)
  from flags_to_children [OF Suc.prems(1) N] obtain N'
    where N': "node_at h' a = Some N'" "children N' = children N"
    by blast
  with kids Suc.IH [OF Suc.prems(1)] show ?case
    by (simp add: list_all_iff)
qed

lemma for_each_SetActive_returns:
  fixes h1 :: "'a heap"
  assumes IH: "\<And>c (h :: 'a heap). subtree_within k h c \<Longrightarrow> \<exists>h'. SetActive k c v h = Some h'"
  shows "list_all (subtree_within k h1) cs \<Longrightarrow>
         \<exists>h2. for_each (\<lambda>child. SetActive k child v) cs h1 = Some h2"
proof (induction cs arbitrary: h1)
  case Nil
  then show ?case by simp
next
  case (Cons c cs)
  from Cons.prems have "subtree_within k h1 c"
    by simp
  then obtain hm where first: "SetActive k c v h1 = Some hm"
    using IH by blast
  then have "flags_to v h1 hm"
    using SetActive_post [OF first] by (simp add: cascade_post_def)
  with Cons.prems have "list_all (subtree_within k hm) cs"
    by (auto simp: list_all_iff intro: subtree_within_flags_to)
  from Cons.IH [OF this] first show ?case
    by simp
qed

lemma SetActive_returns:
  "subtree_within k h a \<Longrightarrow> \<exists>h'. SetActive k a v h = Some h'"
proof (induction k arbitrary: a h)
  case 0
  then show ?case by simp
next
  case (Suc k)
  from Suc.prems obtain N where N: "node_at h a = Some N"
    and kids: "list_all (subtree_within k h) (children N)"
    by (auto split: option.splits)
  show ?case
  proof (cases "active N = v")
    case True
    with N show ?thesis by simp
  next
    case False
    let ?h0 = "modify_node a (\<lambda>N. N\<lparr>active := v\<rparr>) h"
    have "flags_to v h ?h0"
      using N False by (rule flags_to_modify)
    with kids have "list_all (subtree_within k ?h0) (children N)"
      by (auto simp: list_all_iff intro: subtree_within_flags_to)
    with Suc.IH have "\<exists>h2. for_each (\<lambda>child. SetActive k child v) (children N) ?h0 = Some h2"
      by (rule for_each_SetActive_returns)
    with N False show ?thesis by simp
  qed
qed

lemma for_each_SetActive_frame:
  fixes h1 :: "'a heap"
  assumes IH: "\<And>c (h :: 'a heap) h'. SetActive k c v h = Some h' \<Longrightarrow>
      transforms h' = transforms h \<and> length (nodes h') = length (nodes h)"
  shows "for_each (\<lambda>child. SetActive k child v) cs h1 = Some h2 \<Longrightarrow>
         transforms h2 = transforms h1 \<and> length (nodes h2) = length (nodes h1)"
proof (induction cs arbitrary: h1)
  case Nil
  then show ?case by simp
next
  case (Cons c cs)
  from Cons.prems obtain hm where first: "SetActive k c v h1 = Some hm"
    and rest: "for_each (\<lambda>child. SetActive k child v) cs hm = Some h2"
    by (auto split: option.splits)
  from IH [OF first] Cons.IH [OF rest] show ?case
    by simp
qed

lemma SetActive_frame:
  "SetActive k a v h = Some h' \<Longrightarrow>
   transforms h' = transforms h \<and> length (nodes h') = length (nodes h)"
proof (induction k arbitrary: a h h')
  case 0
  then show ?case by simp
next
  case (Suc k)
  from Suc.prems obtain N where N: "node_at h a = Some N"
    by (auto split: option.splits)
  show ?case
  proof (cases "active N = v")
    case True
    with Suc.prems N show ?thesis by simp
  next
    case False
    let ?h0 = "modify_node a (\<lambda>N. N\<lparr>active := v\<rparr>) h"
    from Suc.prems N False
    have run: "for_each (\<lambda>child. SetActive k child v) (children N) ?h0 = Some h'"
      by simp
    have "transforms h' = transforms ?h0 \<and> length (nodes h') = length (nodes ?h0)"
      using Suc.IH run by (rule for_each_SetActive_frame)
    then show ?thesis
      by (simp add: modify_node_def N length_nodes_simps)
  qed
qed

text \<open>A path through active nodes after some flags were cleared was one before.\<close>

lemma active_path_flags_to:
  assumes f: "flags_to False h h'"
  shows "active_path h' a p \<Longrightarrow> active_path h a p"
proof (induction p arbitrary: a)
  case Nil
  show ?case by simp
next
  case (Cons c cs)
  from Cons.prems have on: "IsActive h' a" and c: "c \<in> set (GetChildren h' a)"
    and rest: "active_path h' c cs"
    by simp_all
  from f have "node_at h' a = node_at h a \<or>
      (\<exists>B. node_at h a = Some B \<and> active B \<noteq> False \<and> node_at h' a = Some (B\<lparr>active := False\<rparr>))"
    unfolding flags_to_def by blast
  with on have same: "node_at h' a = node_at h a"
    by (auto simp: IsActive_def)
  with on c have "IsActive h a" "c \<in> set (GetChildren h a)"
    by (simp_all add: IsActive_def GetChildren_def)
  with Cons.IH [OF rest] show ?case
    by simp
qed

text \<open>A node that \<open>SetActive(false)\<close> changes is reached through active nodes.\<close>

lemma for_each_SetActive_only:
  fixes h1 :: "'a heap"
  assumes IH: "\<And>c (h :: 'a heap) h' b. SetActive k c False h = Some h' \<Longrightarrow>
      node_at h' b \<noteq> node_at h b \<Longrightarrow> \<exists>p. active_path h c p \<and> last (c # p) = b"
  shows "for_each (\<lambda>child. SetActive k child False) cs h1 = Some h2 \<Longrightarrow>
         node_at h2 b \<noteq> node_at h1 b \<Longrightarrow>
         \<exists>c \<in> set cs. \<exists>p. active_path h1 c p \<and> last (c # p) = b"
proof (induction cs arbitrary: h1)
  case Nil
  then show ?case by simp
next
  case (Cons c cs)
  from Cons.prems(1) obtain hm where first: "SetActive k c False h1 = Some hm"
    and rest: "for_each (\<lambda>child. SetActive k child False) cs hm = Some h2"
    by (auto split: option.splits)
  show ?case
  proof (cases "node_at hm b = node_at h1 b")
    case False
    from IH [OF first False] obtain p where "active_path h1 c p \<and> last (c # p) = b"
      by blast
    moreover have "c \<in> set (c # cs)"
      by simp
    ultimately show ?thesis
      by blast
  next
    case True
    with Cons.prems(2) have "node_at h2 b \<noteq> node_at hm b"
      by simp
    from Cons.IH [OF rest this] obtain c' p where c': "c' \<in> set cs"
      and p: "active_path hm c' p" "last (c' # p) = b"
      by blast
    from SetActive_post [OF first] have "flags_to False h1 hm"
      by (simp add: cascade_post_def)
    then have "active_path h1 c' p"
      using p(1) by (rule active_path_flags_to)
    moreover from c' have "c' \<in> set (c # cs)"
      by simp
    ultimately show ?thesis
      using p(2) by blast
  qed
qed

lemma SetActive_false_only:
  "SetActive k a False h = Some h' \<Longrightarrow> node_at h' b \<noteq> node_at h b \<Longrightarrow>
   \<exists>p. active_path h a p \<and> last (a # p) = b"
proof (induction k arbitrary: a h h' b)
  case 0
  then show ?case by simp
next
  case (Suc k)
  from Suc.prems(1) obtain N where N: "node_at h a = Some N"
    by (auto split: option.splits)
  show ?case
  proof (cases "active N")
    case False
    with Suc.prems N show ?thesis by simp
  next
    case True
    let ?h0 = "modify_node a (\<lambda>N. N\<lparr>active := False\<rparr>) h"
    from Suc.prems(1) N True
    have run: "for_each (\<lambda>child. SetActive k child False) (children N) ?h0 = Some h'"
      by simp
    show ?thesis
    proof (cases "node_at h' b = node_at ?h0 b")
      case True
      with Suc.prems(2) have "node_at ?h0 b \<noteq> node_at h b"
        by simp
      then have "b = a"
        by (simp add: node_at_modify_node split: if_splits)
      then have "active_path h a [] \<and> last (a # []) = b"
        by simp
      then show ?thesis
        by blast
    next
      case False
      have "\<exists>c \<in> set (children N). \<exists>p. active_path ?h0 c p \<and> last (c # p) = b"
        using Suc.IH run False by (rule for_each_SetActive_only)
      then obtain c p where c: "c \<in> set (children N)"
        and p: "active_path ?h0 c p" "last (c # p) = b"
        by blast
      have "flags_to False h ?h0"
        using N True by (simp add: flags_to_modify)
      then have "active_path h c p"
        using p(1) by (rule active_path_flags_to)
      with N True c have "active_path h a (c # p)"
        by (simp add: IsActive_def GetChildren_def)
      moreover have "last (a # c # p) = b"
        using p(2) by simp
      ultimately show ?thesis
        by blast
    qed
  qed
qed

lemma node_at_in_nodes: "node_at h b = Some B \<Longrightarrow> Some B \<in> set (nodes h)"
  by (auto simp: node_at_def lookup_def in_set_conv_nth split: if_splits)

lemma in_nodes_node_at: "Some B \<in> set (nodes h) \<Longrightarrow> \<exists>b. node_at h b = Some B"
  by (auto simp: node_at_def lookup_def in_set_conv_nth)

lemma links_live_child:
  assumes "links_live h" and "node_at h b = Some B" and "c \<in> set (children B)"
  shows "is_node h c"
proof -
  from assms(2) have "Some B \<in> set (nodes h)"
    by (rule node_at_in_nodes)
  with assms(1,3) show ?thesis
    by (auto simp: links_live_def list_all_iff)
qed

lemma is_node_flags_to: "flags_to v h h' \<Longrightarrow> is_node h c \<Longrightarrow> is_node h' c"
  using flags_to_children [of v h h' c] by (auto simp: is_node_def split: option.splits)

lemma links_live_flags_to:
  assumes f: "flags_to v h h'" and live: "links_live h"
  shows "links_live h'"
  unfolding links_live_def list_all_iff
proof (intro ballI)
  fix cell assume cell: "cell \<in> set (nodes h')"
  show "case cell of None \<Rightarrow> True | Some N \<Rightarrow> \<forall>c \<in> set (children N). is_node h' c"
  proof (cases cell)
    case None
    then show ?thesis by simp
  next
    case (Some N')
    with cell obtain b where b: "node_at h' b = Some N'"
      using in_nodes_node_at by blast
    from f have "node_at h' b = node_at h b \<or>
      (\<exists>B. node_at h b = Some B \<and> active B \<noteq> v \<and> node_at h' b = Some (B\<lparr>active := v\<rparr>))"
      unfolding flags_to_def by blast
    with b have "\<exists>B. node_at h b = Some B \<and> children B = children N'"
      by (cases "node_at h b") auto
    then obtain B where B: "node_at h b = Some B" "children B = children N'"
      by blast
    have "is_node h' c" if "c \<in> set (children N')" for c
    proof -
      from that B(2) have "c \<in> set (children B)" by simp
      with live B(1) have "is_node h c" by (rule links_live_child)
      with f show ?thesis by (rule is_node_flags_to)
    qed
    with Some show ?thesis by simp
  qed
qed

lemma filter_update_less:
  "a < length xs \<Longrightarrow> P (xs ! a) \<Longrightarrow> \<not> P y \<Longrightarrow>
   length (filter P (xs[a := y])) < length (filter P xs)"
proof (induction xs arbitrary: a)
  case Nil
  then show ?case by simp
next
  case (Cons x xs)
  show ?case
  proof (cases a)
    case 0
    with Cons.prems show ?thesis by simp
  next
    case (Suc a')
    with Cons.prems Cons.IH [of a'] show ?thesis by simp
  qed
qed

lemma filter_pointwise_le:
  "length ys = length xs \<Longrightarrow> (\<And>i. i < length xs \<Longrightarrow> P (ys ! i) \<Longrightarrow> P (xs ! i)) \<Longrightarrow>
   length (filter P ys) \<le> length (filter P xs)"
proof (induction ys xs rule: list_induct2)
  case Nil
  show ?case by simp
next
  case (Cons y ys x xs)
  have "length (filter P ys) \<le> length (filter P xs)"
  proof (rule Cons.IH)
    fix i assume "i < length xs" "P (ys ! i)"
    with Cons.prems [of "Suc i"] show "P (xs ! i)" by simp
  qed
  moreover from Cons.prems [of 0] have "P y \<Longrightarrow> P x" by simp
  ultimately show ?case by auto
qed

lemma active_count_modify:
  assumes "node_at h a = Some N" and "active N"
  shows "active_count (modify_node a (\<lambda>N. N\<lparr>active := False\<rparr>) h) < active_count h"
proof -
  from assms(1) have a: "a < length (nodes h)" "nodes h ! a = Some N"
    by (simp_all add: node_at_def lookup_def split: if_splits)
  have "length (filter is_active_cell ((nodes h)[a := Some (N\<lparr>active := False\<rparr>)]))
          < length (filter is_active_cell (nodes h))"
    using a assms(2) by (intro filter_update_less) (simp_all add: is_active_cell_def)
  with assms(1) show ?thesis
    by (simp add: active_count_def modify_node_def)
qed

lemma active_count_flags_to:
  assumes f: "flags_to False h h'" and len: "length (nodes h') = length (nodes h)"
  shows "active_count h' \<le> active_count h"
  unfolding active_count_def
proof (rule filter_pointwise_le [OF len])
  fix i assume i: "i < length (nodes h)" and on: "is_active_cell (nodes h' ! i)"
  from i len have at: "node_at h' i = nodes h' ! i" "node_at h i = nodes h ! i"
    by (simp_all add: node_at_def lookup_def)
  from on obtain N' where N': "nodes h' ! i = Some N'" "active N'"
    by (auto simp: is_active_cell_def split: option.splits)
  from f have "node_at h' i = node_at h i \<or>
      (\<exists>B. node_at h i = Some B \<and> active B \<noteq> False \<and> node_at h' i = Some (B\<lparr>active := False\<rparr>))"
    unfolding flags_to_def by blast
  with N' at have "nodes h ! i = Some N'"
    by auto
  with N'(2) show "is_active_cell (nodes h ! i)"
    by (simp add: is_active_cell_def)
qed

lemma for_each_SetActive_returns_live:
  fixes h1 :: "'a heap"
  assumes IH: "\<And>c (h :: 'a heap). links_live h \<Longrightarrow> is_node h c \<Longrightarrow> active_count h < k \<Longrightarrow>
      \<exists>h'. SetActive k c False h = Some h'"
  shows "links_live h1 \<Longrightarrow> active_count h1 < k \<Longrightarrow> list_all (is_node h1) cs \<Longrightarrow>
         \<exists>h2. for_each (\<lambda>child. SetActive k child False) cs h1 = Some h2"
proof (induction cs arbitrary: h1)
  case Nil
  then show ?case by simp
next
  case (Cons c cs)
  from Cons.prems have "is_node h1 c"
    by simp
  with IH Cons.prems(1,2) obtain hm where first: "SetActive k c False h1 = Some hm"
    by blast
  from SetActive_post [OF first] have f: "flags_to False h1 hm"
    by (simp add: cascade_post_def)
  from SetActive_frame [OF first] have len: "length (nodes hm) = length (nodes h1)"
    by simp
  have live: "links_live hm"
    using f Cons.prems(1) by (rule links_live_flags_to)
  have "active_count hm \<le> active_count h1"
    using f len by (rule active_count_flags_to)
  with Cons.prems(2) have cnt: "active_count hm < k"
    by simp
  from Cons.prems(3) f have "list_all (is_node hm) cs"
    by (auto simp: list_all_iff intro: is_node_flags_to)
  from Cons.IH [OF live cnt this] first show ?case
    by simp
qed

lemma SetActive_returns_live:
  "links_live h \<Longrightarrow> is_node h a \<Longrightarrow> active_count h < k \<Longrightarrow>
   \<exists>h'. SetActive k a False h = Some h'"
proof (induction k arbitrary: a h)
  case 0
  then show ?case by simp
next
  case (Suc k)
  from Suc.prems(2) obtain N where N: "node_at h a = Some N"
    by (auto simp: is_node_def split: option.splits)
  show ?case
  proof (cases "active N")
    case False
    with N show ?thesis by simp
  next
    case True
    let ?h0 = "modify_node a (\<lambda>N. N\<lparr>active := False\<rparr>) h"
    have f: "flags_to False h ?h0"
      using N True by (simp add: flags_to_modify)
    have live: "links_live ?h0"
      using f Suc.prems(1) by (rule links_live_flags_to)
    have "active_count ?h0 < active_count h"
      using N True by (rule active_count_modify)
    with Suc.prems(3) have cnt: "active_count ?h0 < k"
      by simp
    have "list_all (is_node h) (children N)"
      using links_live_child [OF Suc.prems(1) N] by (simp add: list_all_iff)
    with f have kids: "list_all (is_node ?h0) (children N)"
      by (auto simp: list_all_iff intro: is_node_flags_to)
    have "\<exists>h2. for_each (\<lambda>child. SetActive k child False) (children N) ?h0 = Some h2"
      using Suc.IH live cnt kids by (rule for_each_SetActive_returns_live)
    with N True show ?thesis by simp
  qed
qed

text \<open>
  C7 (amended). \<open>SetActive(false)\<close> returns on a node whose subtree has depth at most
  \<open>k\<close>, and on any node of a heap in which every child pointer leads to a node (cycles
  included; the bound \<open>k\<close> then has to exceed the number of active nodes). The heap it
  leaves is this: a node reached from the node of the call along
  child links through nodes that were active before the call (the node itself included) has
  its flag cleared and is otherwise as before; every other node is as before, in particular
  everything below a descendant that was already inactive, unless it is also reached through
  active nodes; no Transform changes. On a node that is already inactive the call changes
  nothing. Adding a child afterwards changes no active flag.
\<close>

theorem SetActive_false_cascade:
  assumes "subtree_within k h a \<or> (links_live h \<and> is_node h a \<and> active_count h < k)"
  shows "\<exists>h'. SetActive k a False h = Some h' \<and>
           (\<forall>b. node_at h' b =
                  (if \<exists>p. active_path h a p \<and> last (a # p) = b
                   then map_option (\<lambda>B. B\<lparr>active := False\<rparr>) (node_at h b)
                   else node_at h b)) \<and>
           transforms h' = transforms h \<and> length (nodes h') = length (nodes h) \<and>
           (\<forall>p. active_path h a p \<longrightarrow> \<not> IsActive h' (last (a # p))) \<and>
           (\<not> IsActive h a \<longrightarrow> h' = h) \<and>
           (\<forall>c b. IsActive (AddChild a c h') b = IsActive h' b)"
proof -
  from assms obtain h' where run: "SetActive k a False h = Some h'"
    using SetActive_returns SetActive_returns_live by blast
  from SetActive_post [OF run] have post: "cascade_post False h h'"
    and a': "flag_is False h' a"
    by simp_all
  from post have f: "flags_to False h h'"
    by (simp add: cascade_post_def)
  from run obtain N where N: "node_at h a = Some N"
    by (cases k) (auto split: option.splits)
  have same: "h' = h" if "\<not> IsActive h a"
    using that run N by (cases k) (auto simp: IsActive_def)
  have paths: "\<not> IsActive h' (last (a # p))" if p: "active_path h a p" for p
  proof (cases "active N")
    case True
    from cascade_path [OF post N True a' p] show ?thesis
      by (auto simp: flag_is_def IsActive_def split: option.splits)
  next
    case False
    with N have off: "\<not> IsActive h a" by (simp add: IsActive_def)
    with p have "p = []" by (cases p) simp_all
    with off same show ?thesis by simp
  qed
  have nodes: "node_at h' b =
                  (if \<exists>p. active_path h a p \<and> last (a # p) = b
                   then map_option (\<lambda>B. B\<lparr>active := False\<rparr>) (node_at h b)
                   else node_at h b)" for b
  proof (cases "\<exists>p. active_path h a p \<and> last (a # p) = b")
    case False
    with SetActive_false_only [OF run, of b] have "node_at h' b = node_at h b"
      by blast
    then show ?thesis
      by (subst if_not_P [OF False])
  next
    case True
    with paths have off: "\<not> IsActive h' b"
      by blast
    from f have "node_at h' b = node_at h b \<or>
      (\<exists>B. node_at h b = Some B \<and> active B \<noteq> False \<and>
           node_at h' b = Some (B\<lparr>active := False\<rparr>))"
      unfolding flags_to_def by blast
    then have "node_at h' b = map_option (\<lambda>B. B\<lparr>active := False\<rparr>) (node_at h b)"
    proof
      assume eq: "node_at h' b = node_at h b"
      show ?thesis
      proof (cases "node_at h b")
        case None
        with eq show ?thesis by simp
      next
        case (Some B)
        with eq off have "\<not> active B"
          by (simp add: IsActive_def)
        then have "B\<lparr>active := False\<rparr> = B"
          by simp
        with eq Some show ?thesis
          by simp
      qed
    next
      assume "\<exists>B. node_at h b = Some B \<and> active B \<noteq> False \<and>
           node_at h' b = Some (B\<lparr>active := False\<rparr>)"
      then show ?thesis
        by auto
    qed
    then show ?thesis
      by (subst if_P [OF True])
  qed
  have later: "IsActive (AddChild a c h') b = IsActive h' b" for c b
    by (auto simp: IsActive_def AddChild_def node_at_modify_node split: option.splits)
  from SetActive_frame [OF run] run nodes paths same later show ?thesis
    by blast
qed

theorem SetActive_false_cascade_witness:
  "subtree_within 3 heap_ABCD 0 \<and>
   IsActive heap_ABCD 0 \<and> \<not> IsActive heap_ABCD 1 \<and> IsActive heap_ABCD 2 \<and>
   IsActive heap_ABCD 3 \<and>
   (\<exists>h'. SetActive 3 0 False heap_ABCD = Some h' \<and>
      \<not> IsActive h' 0 \<and> \<not> IsActive h' 1 \<and> IsActive h' 2 \<and> IsActive h' 3) \<and>
   links_live heap_cycle \<and> is_node heap_cycle 0 \<and> active_count heap_cycle < 3 \<and>
   GetChildren heap_cycle 0 = [1] \<and> GetChildren heap_cycle 1 = [0] \<and>
   (\<exists>h'. SetActive 3 0 False heap_cycle = Some h' \<and> \<not> IsActive h' 0 \<and> \<not> IsActive h' 1)"
proof -
  have a: "subtree_within 3 heap_ABCD 0"
    by code_simp
  have flags: "IsActive heap_ABCD 0" "\<not> IsActive heap_ABCD 1" "IsActive heap_ABCD 2"
    "IsActive heap_ABCD 3"
    by code_simp+
  have kids: "GetChildren heap_ABCD 0 = [1]"
    by code_simp
  have ends: "last (0 # p) = 0 \<or> last (0 # p) = 1" if "active_path heap_ABCD 0 p" for p
  proof (cases p)
    case Nil
    then show ?thesis by simp
  next
    case (Cons c cs)
    with that have "c \<in> set (GetChildren heap_ABCD 0)" and rest: "active_path heap_ABCD c cs"
      by simp_all
    with kids have c: "c = 1"
      by simp
    from rest flags(2) have "cs = []"
      unfolding c by (cases cs) simp_all
    with Cons c show ?thesis
      by simp
  qed
  have one: "active_path heap_ABCD 0 [1]"
    using flags(1) kids by simp
  from a have "subtree_within 3 heap_ABCD 0 \<or>
      (links_live heap_ABCD \<and> is_node heap_ABCD 0 \<and> active_count heap_ABCD < 3)"
    by simp
  from SetActive_false_cascade [OF this] obtain h'
    where run: "SetActive 3 0 False heap_ABCD = Some h'"
      and nodes: "\<And>b. node_at h' b =
                  (if \<exists>p. active_path heap_ABCD 0 p \<and> last (0 # p) = b
                   then map_option (\<lambda>B. B\<lparr>active := False\<rparr>) (node_at heap_ABCD b)
                   else node_at heap_ABCD b)"
      and paths: "\<forall>p. active_path heap_ABCD 0 p \<longrightarrow> \<not> IsActive h' (last (0 # p))"
    by blast
  have "\<not> (\<exists>p. active_path heap_ABCD 0 p \<and> last (0 # p) = 2)"
    using ends by fastforce
  then have "node_at h' 2 = node_at heap_ABCD 2"
    by (subst nodes) (rule if_not_P)
  with flags(3) have c2: "IsActive h' 2"
    by (simp add: IsActive_def)
  have "\<not> (\<exists>p. active_path heap_ABCD 0 p \<and> last (0 # p) = 3)"
    using ends by fastforce
  then have "node_at h' 3 = node_at heap_ABCD 3"
    by (subst nodes) (rule if_not_P)
  with flags(4) have c3: "IsActive h' 3"
    by (simp add: IsActive_def)
  from paths one have c1: "\<not> IsActive h' 1"
    by fastforce
  have "active_path heap_ABCD 0 []"
    by simp
  with paths have c0: "\<not> IsActive h' 0"
    by fastforce
  have tree: "\<exists>h'. SetActive 3 0 False heap_ABCD = Some h' \<and>
      \<not> IsActive h' 0 \<and> \<not> IsActive h' 1 \<and> IsActive h' 2 \<and> IsActive h' 3"
    using run c0 c1 c2 c3 by blast
  have cyc: "links_live heap_cycle" "is_node heap_cycle 0" "active_count heap_cycle < 3"
    "GetChildren heap_cycle 0 = [1]" "GetChildren heap_cycle 1 = [0]"
    "IsActive heap_cycle 0"
    by code_simp+
  from cyc(1-3) have "subtree_within 3 heap_cycle 0 \<or>
      (links_live heap_cycle \<and> is_node heap_cycle 0 \<and> active_count heap_cycle < 3)"
    by simp
  from SetActive_false_cascade [OF this] obtain g'
    where grun: "SetActive 3 0 False heap_cycle = Some g'"
      and gpaths: "\<forall>p. active_path heap_cycle 0 p \<longrightarrow> \<not> IsActive g' (last (0 # p))"
    by blast
  have "active_path heap_cycle 0 [1]"
    using cyc(4,6) by simp
  with gpaths have g1: "\<not> IsActive g' 1"
    by fastforce
  have "active_path heap_cycle 0 []"
    by simp
  with gpaths have g0: "\<not> IsActive g' 0"
    by fastforce
  have cycle: "\<exists>h'. SetActive 3 0 False heap_cycle = Some h' \<and> \<not> IsActive h' 0 \<and> \<not> IsActive h' 1"
    using grun g0 g1 by blast
  from a flags tree cyc(1-5) cycle show ?thesis
    by blast
qed

text \<open>
  The claim as stated fails: here \<open>P\<close> is inactive and its child \<open>C\<close> is active, and
  \<open>P->SetActive(false)\<close> leaves \<open>C\<close> active.
\<close>

theorem SetActive_false_counterexample:
  "\<not> IsActive heap_PC_child_on 0 \<and> IsActive heap_PC_child_on 1 \<and>
   GetChildren heap_PC_child_on 0 = [1] \<and>
   (case SetActive 2 0 False heap_PC_child_on of
      Some h' \<Rightarrow> IsActive h' 1 \<and> GetChildren h' 0 = [1]
    | None \<Rightarrow> False)"
  by code_simp

section \<open>Loading keeps the Transform\<close>

lemma node_at_Some_less: "node_at h a = Some N \<Longrightarrow> a < length (nodes h)"
  by (simp add: node_at_def lookup_Some_less)

lemma transform_at_Some_less: "transform_at h t = Some T \<Longrightarrow> t < length (transforms h)"
  by (simp add: transform_at_def lookup_Some_less)

lemma node_at_beyond: "length (nodes h) \<le> a \<Longrightarrow> node_at h a = None"
  by (simp add: node_at_def lookup_def)

lemma transform_at_beyond: "length (transforms h) \<le> t \<Longrightarrow> transform_at h t = None"
  by (simp add: transform_at_def lookup_def)

lemma Transform_Deserialize_at_nodes:
  "nodes (heap_of (Transform_Deserialize_at d t h)) = nodes h"
  by (auto simp: Transform_Deserialize_at_def modify_transform_def
      split: option.splits sum.splits prod.splits)

lemma Transform_Deserialize_at_other:
  "t' \<noteq> t \<Longrightarrow> transform_at (heap_of (Transform_Deserialize_at d t h)) t' = transform_at h t'"
  by (auto simp: Transform_Deserialize_at_def store_simps
      split: option.splits sum.splits prod.splits)

lemma Transform_Deserialize_at_length:
  "length (transforms (heap_of (Transform_Deserialize_at d t h))) = length (transforms h)"
  by (auto simp: Transform_Deserialize_at_def store_simps
      split: option.splits sum.splits prod.splits)

lemma GetTransform_nodes: "nodes h' = nodes h \<Longrightarrow> GetTransform h' a = GetTransform h a"
  by (simp add: GetTransform_def node_at_def)

lemma comp_frame_refl: "comp_frame a h h"
  by (simp add: comp_frame_def)

lemma comp_frame_trans:
  "comp_frame a h h1 \<Longrightarrow> comp_frame a h1 h2 \<Longrightarrow> comp_frame a h h2"
  by (simp add: comp_frame_def GetTransform_def node_at_def)

lemma comp_frame_Transform_Deserialize_at:
  "GetTransform h a = Some t \<Longrightarrow> comp_frame a h (heap_of (Transform_Deserialize_at d t h))"
  by (simp add: comp_frame_def Transform_Deserialize_at_nodes Transform_Deserialize_at_length
      Transform_Deserialize_at_other)

lemma Deserialize_components_frame:
  "comp_frame a h (heap_of (Deserialize_components cs a h))"
proof (induction cs arbitrary: h)
  case Nil
  then show ?case by (simp add: comp_frame_refl)
next
  case (Cons c cs)
  show ?case
  proof (cases "read_string c ''type''")
    case (Inl e)
    then show ?thesis by (simp add: comp_frame_refl)
  next
    case (Inr typeName)
    show ?thesis
    proof (cases "typeName = ''Transform''")
      case False
      with Inr Cons.IH [of h] show ?thesis by simp
    next
      case True
      show ?thesis
      proof (cases "GetTransform h a")
        case None
        with Inr True Cons.IH [of h] show ?thesis by simp
      next
        case (Some t)
        show ?thesis
        proof (cases "json_at c ''data''")
          case (Inl e)
          with Inr True Some show ?thesis by (simp add: comp_frame_refl)
        next
          case d: (Inr d)
          let ?r = "Transform_Deserialize_at d t h"
          have step: "comp_frame a h (heap_of ?r)"
            using Some by (rule comp_frame_Transform_Deserialize_at)
          show ?thesis
          proof (cases ?r)
            case (Inl eh)
            with Inr True Some d step show ?thesis
              by simp
          next
            case r: (Inr h')
            with step have "comp_frame a h h'" by simp
            then have "comp_frame a h (heap_of (Deserialize_components cs a h'))"
              using Cons.IH [of h'] by (rule comp_frame_trans)
            with Inr True Some d r show ?thesis
              by simp
          qed
        qed
      qed
    qed
  qed
qed

lemma node_kept_refl: "node_kept a h h"
  by (simp add: node_kept_def split: option.splits)

lemma head_frame_refl: "head_frame a h h"
  by (simp add: head_frame_def node_kept_refl)

lemma node_kept_GetTransform: "node_kept a h h' \<Longrightarrow> GetTransform h' a = GetTransform h a"
  by (auto simp: node_kept_def GetTransform_def split: option.splits)

lemma keep_Transform_only_transform:
  "transform N1 = transform N \<Longrightarrow>
   components (keep_Transform_only N1) = components (keep_Transform_only N)"
  by (simp add: keep_Transform_only_def split: option.splits)

lemma node_kept_trans:
  assumes "node_kept a h h1" and "node_kept a h1 h2"
  shows "node_kept a h h2"
proof (cases "node_at h a")
  case None
  with assms show ?thesis
    by (simp add: node_kept_def)
next
  case (Some N)
  with assms(1) obtain N1 where N1: "node_at h1 a = Some N1" "weak_this N1 = weak_this N"
    "parent N1 = parent N" "transform N1 = transform N"
    "components N1 = components N \<or> components N1 = components (keep_Transform_only N)"
    unfolding node_kept_def by auto
  with assms(2) obtain N2 where N2: "node_at h2 a = Some N2" "weak_this N2 = weak_this N1"
    "parent N2 = parent N1" "transform N2 = transform N1"
    "components N2 = components N1 \<or> components N2 = components (keep_Transform_only N1)"
    unfolding node_kept_def by auto
  from N1(4) have "components (keep_Transform_only N1) = components (keep_Transform_only N)"
    by (rule keep_Transform_only_transform)
  with N1 N2 have "weak_this N2 = weak_this N \<and> parent N2 = parent N \<and>
      transform N2 = transform N \<and>
      (components N2 = components N \<or> components N2 = components (keep_Transform_only N))"
    by auto
  with Some N2(1) show ?thesis
    by (simp add: node_kept_def)
qed

lemma head_frame_trans:
  assumes "head_frame a h h1" and "head_frame a h1 h2"
  shows "head_frame a h h2"
proof -
  from assms(1) have "GetTransform h1 a = GetTransform h a"
    by (simp add: head_frame_def node_kept_GetTransform)
  moreover from assms have "node_kept a h h2"
    by (auto simp: head_frame_def intro: node_kept_trans)
  ultimately show ?thesis
    using assms by (simp add: head_frame_def)
qed

lemma head_frame_modify:
  assumes "\<And>N. weak_this (f N) = weak_this N \<and> parent (f N) = parent N \<and>
            transform (f N) = transform N \<and>
            (components (f N) = components N \<or>
             components (f N) = components (keep_Transform_only N))"
  shows "head_frame a h (modify_node a f h)"
  using assms by (simp add: head_frame_def node_kept_def store_simps split: option.splits)

lemma head_frame_comp: "comp_frame a h h' \<Longrightarrow> head_frame a h h'"
  by (simp add: head_frame_def comp_frame_def node_kept_def node_at_def split: option.splits)

lemma Deserialize_head_frame: "head_frame a h (heap_of (Deserialize_head j a h))"
proof -
  let ?h1 = "\<lambda>nm. modify_node a (\<lambda>N. N\<lparr>name := nm\<rparr>) h"
  let ?h2 = "\<lambda>nm ac. modify_node a (\<lambda>N. N\<lparr>active := ac\<rparr>) (?h1 nm)"
  let ?h3 = "\<lambda>nm ac. modify_node a keep_Transform_only (?h2 nm ac)"
  have f1: "head_frame a h (?h1 nm)" for nm
    by (rule head_frame_modify) simp
  have f2: "head_frame a h (?h2 nm ac)" for nm ac
    by (rule head_frame_trans [OF f1]) (rule head_frame_modify, simp)
  have f3: "head_frame a h (?h3 nm ac)" for nm ac
    by (rule head_frame_trans [OF f2]) (rule head_frame_modify, simp add: keep_Transform_only_def split: option.splits)
  have f4: "head_frame a h (heap_of (Deserialize_components cs a (?h3 nm ac)))" for nm ac cs
    by (rule head_frame_trans [OF f3]) (rule head_frame_comp, rule Deserialize_components_frame)
  have f5: "head_frame a h (modify_node a (\<lambda>N. N\<lparr>children := []\<rparr>) h4)"
    if "head_frame a h h4" for h4
    by (rule head_frame_trans [OF that]) (rule head_frame_modify, simp)
  show ?thesis
  proof (cases "read_string j ''name''")
    case (Inl e)
    then show ?thesis by (simp add: Deserialize_head_def head_frame_refl)
  next
    case nm: (Inr nm)
    show ?thesis
    proof (cases "read_bool j ''active''")
      case (Inl e)
      with nm f1 show ?thesis by (simp add: Deserialize_head_def)
    next
      case ac: (Inr ac)
      show ?thesis
      proof (cases "json_at j ''components''")
        case (Inl e)
        with nm ac f3 show ?thesis by (simp add: Deserialize_head_def)
      next
        case cs: (Inr cs)
        show ?thesis
        proof (cases "Deserialize_components (json_items cs) a (?h3 nm ac)")
          case (Inl eh)
          with f4 [where cs = "json_items cs" and nm = nm and ac = ac] nm ac cs show ?thesis
            by (cases eh) (simp add: Deserialize_head_def)
        next
          case (Inr h4)
          with f4 [where cs = "json_items cs" and nm = nm and ac = ac] have "head_frame a h h4" by simp
          from f5 [OF this] nm ac cs Inr show ?thesis
            by (simp add: Deserialize_head_def)
        qed
      qed
    qed
  qed
qed

lemma make_shared_Node_facts:
  fixes h :: "'a::{zero,one} heap"
  assumes "make_shared_Node nm h = (c, h1)"
  shows "c = length (nodes h)"
    and "length (nodes h1) = Suc (length (nodes h))"
    and "length (transforms h1) = Suc (length (transforms h))"
    and "b \<noteq> length (nodes h) \<Longrightarrow> node_at h1 b = node_at h b"
    and "t \<noteq> length (transforms h) \<Longrightarrow> transform_at h1 t = transform_at h t"
    and "node_at h1 (length (nodes h)) = Some (fresh_Node nm (length (nodes h)) (length (transforms h)))"
    and "transform_at h1 (length (transforms h)) = Some (Transform_new\<lparr>dirty := False\<rparr>)"
  using assms
  by (auto simp: make_shared_Node_def Node_ctor_def make_shared_Transform_def Let_def
      store_simps fresh_Node_def Node_init_def weak_from_this_def Transform_new_def)

lemma head_frame_node_frame:
  assumes "head_frame a h h'"
  shows "node_frame a h h'"
  using assms
  by (simp add: head_frame_def node_frame_def unchanged_nodes_def unchanged_transforms_def)

lemma node_frame_loop:
  assumes hf: "head_frame a h h5" and lf: "loop_frame a h5 h'"
  shows "node_frame a h h'"
proof -
  from hf have len: "length (nodes h5) = length (nodes h)"
    "length (transforms h5) = length (transforms h)"
    and other: "\<And>b. b \<noteq> a \<Longrightarrow> node_at h5 b = node_at h b"
    and kept: "node_kept a h h5"
    and tr: "\<And>t. GetTransform h a \<noteq> Some t \<Longrightarrow> transform_at h5 t = transform_at h t"
    by (simp_all add: head_frame_def)
  from lf have un: "unchanged_nodes a h5 h'" and ut: "unchanged_transforms None h5 h'"
    and oc: "only_children a h5 h'"
    by (simp_all add: loop_frame_def)
  have 1: "unchanged_nodes a h h'"
    using un len other by (simp add: unchanged_nodes_def)
  have 2: "unchanged_transforms (GetTransform h a) h h'"
    using ut len tr by (simp add: unchanged_transforms_def)
  have "node_kept a h5 h'"
    using oc by (auto simp: only_children_def node_kept_def split: option.splits)
  with kept have 3: "node_kept a h h'"
    by (rule node_kept_trans)
  from 1 2 3 show ?thesis
    by (simp add: node_frame_def)
qed

lemma only_children_same: "node_at h' a = node_at h a \<Longrightarrow> only_children a h h'"
proof (cases "node_at h a")
  case None
  assume "node_at h' a = node_at h a"
  with None show ?thesis by (simp add: only_children_def)
next
  case (Some N)
  assume "node_at h' a = node_at h a"
  with Some have "node_at h' a = Some (N\<lparr>children := children N\<rparr>)"
    by simp
  then have "\<exists>cs. node_at h' a = Some (N\<lparr>children := cs\<rparr>)" ..
  with Some show ?thesis
    by (simp add: only_children_def)
qed

lemma only_children_trans:
  assumes "only_children a h h1" and "only_children a h1 h2"
  shows "only_children a h h2"
proof (cases "node_at h a")
  case None
  with assms show ?thesis by (simp add: only_children_def)
next
  case (Some N)
  with assms(1) obtain cs where 1: "node_at h1 a = Some (N\<lparr>children := cs\<rparr>)"
    by (auto simp: only_children_def)
  with assms(2) obtain cs' where "node_at h2 a = Some (N\<lparr>children := cs, children := cs'\<rparr>)"
    by (auto simp: only_children_def)
  then have "node_at h2 a = Some (N\<lparr>children := cs'\<rparr>)" by simp
  then have "\<exists>cs. node_at h2 a = Some (N\<lparr>children := cs\<rparr>)" ..
  with Some show ?thesis by (simp add: only_children_def)
qed

lemma loop_frame_refl: "loop_frame a h h"
proof -
  have "only_children a h h"
  proof (cases "node_at h a")
    case None
    then show ?thesis by (simp add: only_children_def)
  next
    case (Some N)
    have "node_at h a = Some (N\<lparr>children := children N\<rparr>)"
      using Some by simp
    then have "\<exists>cs. node_at h a = Some (N\<lparr>children := cs\<rparr>)" ..
    with Some show ?thesis
      by (simp add: only_children_def)
  qed
  then show ?thesis
    by (simp add: loop_frame_def unchanged_nodes_def unchanged_transforms_def)
qed


lemma Deserialize_frames:
  fixes h :: "'a::{zero,one} heap"
  shows "a < length (nodes h) \<Longrightarrow> node_frame a h (heap_of (Node_Deserialize j a h))"
    and "a < length (nodes h) \<Longrightarrow> loop_frame a h (heap_of (Deserialize_children cs a h))"
proof (induction j a h and cs a h rule: Node_Deserialize_Deserialize_children.induct)
  case (1 j a h)
  have hf: "head_frame a h (heap_of (Deserialize_head j a h))"
    by (rule Deserialize_head_frame)
  show ?case
  proof (cases "Deserialize_head j a h")
    case (Inl eh)
    with hf show ?thesis
      by (cases eh) (simp add: head_frame_node_frame Node_Deserialize.simps)
  next
    case h5: (Inr h5)
    with hf have hf5: "head_frame a h h5" by simp
    show ?thesis
    proof (cases "json_at j ''children''")
      case (Inl e)
      with h5 hf5 show ?thesis
        by (simp add: head_frame_node_frame Node_Deserialize.simps)
    next
      case ks: (Inr ks)
      from hf5 "1.prems" have "a < length (nodes h5)"
        by (simp add: head_frame_def)
      from "1.IH" [OF h5 ks this]
      have "loop_frame a h5 (heap_of (Deserialize_children (json_items ks) a h5))" .
      with hf5 have "node_frame a h (heap_of (Deserialize_children (json_items ks) a h5))"
        by (rule node_frame_loop)
      with h5 ks show ?thesis by (simp add: Node_Deserialize.simps)
    qed
  qed
next
  case (2 a h)
  show ?case by (simp add: loop_frame_refl)
next
  case (3 childJson rest a h)
  obtain c h1 where mk: "make_shared_Node ''Node'' h = (c, h1)"
    by (cases "make_shared_Node ''Node'' h")
  note facts = make_shared_Node_facts [OF mk]
  have c: "c = length (nodes h)" by (rule facts(1))
  have c_less: "c < length (nodes h1)" using facts(1,2) by simp
  let ?r = "Node_Deserialize childJson c h1"
  have nf: "node_frame c h1 (heap_of ?r)"
    using "3.IH"(1) [OF refl mk [symmetric] c_less] .
  have gt: "GetTransform h1 c = Some (length (transforms h))"
    using facts(6) c by (simp add: GetTransform_def fresh_Node_def)
  have pre: "loop_frame a h (heap_of ?r)"
  proof -
    from nf have un: "unchanged_nodes c h1 (heap_of ?r)"
      and ut: "unchanged_transforms (Some (length (transforms h))) h1 (heap_of ?r)"
      using gt by (simp_all add: node_frame_def)
    have n: "node_at (heap_of ?r) b = node_at h b" if "b < length (nodes h)" for b
      using un that facts(2,4) c by (simp add: unchanged_nodes_def)
    have 1: "unchanged_nodes a h (heap_of ?r)"
      using un facts(2) n by (simp add: unchanged_nodes_def)
    have 2: "unchanged_transforms None h (heap_of ?r)"
      using ut facts(3,5) by (simp add: unchanged_transforms_def)
    have "node_at (heap_of ?r) a = node_at h a"
      using n "3.prems" by simp
    then have 3: "only_children a h (heap_of ?r)"
      by (rule only_children_same)
    from 1 2 3 show ?thesis by (simp add: loop_frame_def)
  qed
  show ?case
  proof (cases ?r)
    case (Inl eh)
    with pre mk show ?thesis
      by (cases eh) simp
  next
    case h2: (Inr h2)
    let ?h3 = "modify_node c (\<lambda>N. N\<lparr>parent := weak_from_this h2 a\<rparr>) (AddChild a c h2)"
    from pre h2 have pre2: "loop_frame a h h2" by simp
    then have len2: "length (nodes h) \<le> length (nodes h2)"
      by (simp add: loop_frame_def unchanged_nodes_def)
    have a3: "a < length (nodes ?h3)"
      using "3.prems" len2 by (simp add: AddChild_def store_simps)
    have lf3: "loop_frame a ?h3 (heap_of (Deserialize_children rest a ?h3))"
      using "3.IH"(2) [OF refl mk [symmetric] h2 a3] .
    have ac: "a \<noteq> c" using "3.prems" c by simp
    have oc3: "only_children a h2 ?h3"
    proof (cases "node_at h2 a")
      case None
      with ac show ?thesis
        by (simp add: only_children_def AddChild_def store_simps)
    next
      case (Some N)
      show ?thesis
      proof (cases "c \<in> set (children N)")
        case True
        with Some ac have "node_at ?h3 a = node_at h2 a"
          by (simp add: AddChild_def store_simps)
        then show ?thesis by (rule only_children_same)
      next
        case False
        with Some ac have "node_at ?h3 a = Some (N\<lparr>children := children N @ [c]\<rparr>)"
          by (simp add: AddChild_def store_simps)
        then have "\<exists>cs. node_at ?h3 a = Some (N\<lparr>children := cs\<rparr>)" ..
        with Some show ?thesis by (simp add: only_children_def)
      qed
    qed
    let ?h' = "heap_of (Deserialize_children rest a ?h3)"
    from lf3 have un3: "unchanged_nodes a ?h3 ?h'" and ut3: "unchanged_transforms None ?h3 ?h'"
      and oc4: "only_children a ?h3 ?h'"
      by (simp_all add: loop_frame_def)
    from pre2 have un2: "unchanged_nodes a h h2" and ut2: "unchanged_transforms None h h2"
      and oc2: "only_children a h h2"
      by (simp_all add: loop_frame_def)
    have len3: "length (nodes ?h3) = length (nodes h2)"
      "length (transforms ?h3) = length (transforms h2)"
      by (simp_all add: AddChild_def store_simps)
    have n3: "node_at ?h3 b = node_at h2 b" if "b \<noteq> a" "b \<noteq> c" for b
      using that by (simp add: AddChild_def store_simps)
    have t3: "transform_at ?h3 t = transform_at h2 t" for t
      by (simp add: AddChild_def store_simps)
    have 1: "unchanged_nodes a h ?h'"
      unfolding unchanged_nodes_def
    proof (intro conjI allI impI)
      from un2 un3 len3 show "length (nodes h) \<le> length (nodes ?h')"
        by (simp add: unchanged_nodes_def)
    next
      fix b assume b: "b < length (nodes h) \<and> b \<noteq> a"
      with c have bc: "b \<noteq> c" by simp
      from b un2 have b2: "b < length (nodes h2)" "node_at h2 b = node_at h b"
        by (simp_all add: unchanged_nodes_def)
      with b un3 len3 have "node_at ?h' b = node_at ?h3 b"
        by (simp add: unchanged_nodes_def)
      with n3 [of b] b bc b2 show "node_at ?h' b = node_at h b"
        by simp
    qed
    have 2: "unchanged_transforms None h ?h'"
      using ut2 ut3 len3 t3 by (simp add: unchanged_transforms_def)
    have 3: "only_children a h ?h'"
      using oc2 oc3 oc4 by (blast intro: only_children_trans)
    from 1 2 3 have "loop_frame a h ?h'"
      by (simp add: loop_frame_def)
    with mk h2 show ?thesis
      by simp
  qed
qed

text \<open>
  C4. A node has its Transform component right after construction, with the quick-access
  pointer equal to the map entry; and a node in that state is still in that state after
  \<open>Node::Deserialize\<close> on any document, whether the call returns or throws.
\<close>

theorem Transform_always_present:
  fixes h :: "'a::{zero,one} heap"
  shows
    "HasComponent_Transform (snd (make_shared_Node nm h)) (fst (make_shared_Node nm h)) \<and>
     GetTransform (snd (make_shared_Node nm h)) (fst (make_shared_Node nm h)) =
       GetComponent_Transform (snd (make_shared_Node nm h)) (fst (make_shared_Node nm h)) \<and>
     (HasComponent_Transform h a \<and> GetTransform h a = GetComponent_Transform h a \<longrightarrow>
        HasComponent_Transform (heap_of (Node_Deserialize j a h)) a \<and>
        GetTransform (heap_of (Node_Deserialize j a h)) a =
          GetComponent_Transform (heap_of (Node_Deserialize j a h)) a)"
proof (intro conjI impI)
  obtain c h1 where mk: "make_shared_Node nm h = (c, h1)"
    by (cases "make_shared_Node nm h")
  note facts = make_shared_Node_facts [OF mk]
  from facts(1,6) mk
  show "HasComponent_Transform (snd (make_shared_Node nm h)) (fst (make_shared_Node nm h))"
    by (simp add: HasComponent_Transform_def fresh_Node_def)
  from facts(1,6) mk
  show "GetTransform (snd (make_shared_Node nm h)) (fst (make_shared_Node nm h)) =
       GetComponent_Transform (snd (make_shared_Node nm h)) (fst (make_shared_Node nm h))"
    by (simp add: GetTransform_def GetComponent_Transform_def fresh_Node_def)
next
  let ?h' = "heap_of (Node_Deserialize j a h)"
  assume pre: "HasComponent_Transform h a \<and> GetTransform h a = GetComponent_Transform h a"
  then obtain N t where N: "node_at h a = Some N" "components N TypeTransform = Some t"
    "transform N = Some t"
    by (auto simp: HasComponent_Transform_def GetTransform_def GetComponent_Transform_def
        split: option.splits)
  from N(1) have "a < length (nodes h)"
    by (rule node_at_Some_less)
  then have "node_frame a h ?h'"
    by (rule Deserialize_frames(1))
  then have "node_kept a h ?h'"
    by (simp add: node_frame_def)
  with N obtain N' where N': "node_at ?h' a = Some N'" "transform N' = Some t"
    "components N' = components N \<or> components N' = components (keep_Transform_only N)"
    by (auto simp: node_kept_def)
  from N'(3) N have "components N' TypeTransform = Some t"
    by (auto simp: keep_Transform_only_def)
  with N' show "HasComponent_Transform ?h' a"
    and "GetTransform ?h' a = GetComponent_Transform ?h' a"
    by (simp_all add: HasComponent_Transform_def GetTransform_def GetComponent_Transform_def)
qed

theorem Transform_always_present_witness:
  "HasComponent_Transform (snd (make_shared_Node ''n'' (empty_heap :: int heap))) 0 \<and>
   GetTransform (snd (make_shared_Node ''n'' (empty_heap :: int heap))) 0 =
     GetComponent_Transform (snd (make_shared_Node ''n'' (empty_heap :: int heap))) 0 \<and>
   HasComponent_Transform
     (heap_of (Node_Deserialize doc_leaf 0 (snd (make_shared_Node ''n'' empty_heap)))) 0"
proof -
  let ?h = "snd (make_shared_Node ''n'' (empty_heap :: int heap))"
  have a: "HasComponent_Transform ?h 0 \<and> GetTransform ?h 0 = GetComponent_Transform ?h 0"
    by code_simp
  with Transform_always_present [of "''n''" ?h 0 doc_leaf] show ?thesis
    by blast
qed

section \<open>World values of a Transform\<close>

text \<open>
  C2 at the example of the specification. In the scene made by \<open>CreateNode\<close> the node \<open>P\<close>
  has the child \<open>C\<close>, each has its Transform, \<open>P\<close> has local position (1,2,3) and local
  scale (2,2,2), \<open>C\<close> has local position (1,0,0) and is dirty. The world getters of \<open>C\<close>
  return (0,0,0), (0,0,0) and (1,1,1), the values cached at construction, where the formula
  gives the position (3,2,3) and the scale (2,2,2); the world position of the root \<open>P\<close> is
  returned as (0,0,0), where it should be its local position (1,2,3). Both Transforms were
  attached inside the constructor, so their owner pointers are empty and
  \<open>UpdateWorldTransform\<close> does nothing but clear the flag. In the heap \<open>heap_live\<close>, which has
  the same nodes and local values but Transforms attached by \<open>AddComponent<Transform>()\<close>
  after construction, the same getters return (3,2,3) and (2,2,2).
\<close>

theorem GetWorld_after_CreateNode:
  "GetParent heap_example 1 = Some 0 \<and>
   GetComponent_Transform heap_example 0 = Some 0 \<and>
   GetComponent_Transform heap_example 1 = Some 1 \<and>
   map_option local_values (transform_at heap_example 0)
     = Some (Vec3 1 2 3, Vec3 0 0 0, Vec3 2 2 2) \<and>
   map_option local_values (transform_at heap_example 1)
     = Some (Vec3 1 0 0, Vec3 0 0 0, Vec3 1 1 1) \<and>
   map_option dirty (transform_at heap_example 0) = Some True \<and>
   map_option dirty (transform_at heap_example 1) = Some True \<and>
   map_option owner (transform_at heap_example 0) = Some None \<and>
   map_option owner (transform_at heap_example 1) = Some None \<and>
   map_option fst (GetWorldPosition 2 1 heap_example) = Some (Vec3 0 0 0) \<and>
   map_option fst (GetWorldRotation 2 1 heap_example) = Some (Vec3 0 0 0) \<and>
   map_option fst (GetWorldScale 2 1 heap_example) = Some (Vec3 1 1 1) \<and>
   map_option fst (GetWorldPosition 2 0 heap_example) = Some (Vec3 0 0 0) \<and>
   GetParent heap_live 1 = Some 0 \<and>
   GetComponent_Transform heap_live 0 = Some 1 \<and>
   GetComponent_Transform heap_live 1 = Some 3 \<and>
   map_option local_values (transform_at heap_live 1)
     = Some (Vec3 1 2 3, Vec3 0 0 0, Vec3 2 2 2) \<and>
   map_option local_values (transform_at heap_live 3)
     = Some (Vec3 1 0 0, Vec3 0 0 0, Vec3 1 1 1) \<and>
   map_option dirty (transform_at heap_live 3) = Some True \<and>
   map_option owner (transform_at heap_live 3) = Some (Some 1) \<and>
   map_option fst (GetWorldPosition 2 3 heap_live) = Some (Vec3 3 2 3) \<and>
   map_option fst (GetWorldRotation 2 3 heap_live) = Some (Vec3 0 0 0) \<and>
   map_option fst (GetWorldScale 2 3 heap_live) = Some (Vec3 2 2 2)"
  by code_simp

section \<open>Re-parenting a node\<close>

text \<open>The cells of the heap that the calls of \<open>heap_CP\<close> build.\<close>

lemma heap_CP_cells:
  "heap_CP =
     \<lparr>nodes =
        [Some \<lparr>weak_this = Some 0, name = ''C'', parent = None, children = [],
               components = Map.empty(TypeTransform \<mapsto> 0), transform = Some 0,
               active = True\<rparr>,
         Some \<lparr>weak_this = Some 1, name = ''P'', parent = None, children = [],
               components = Map.empty(TypeTransform \<mapsto> 1), transform = Some 1,
               active = True\<rparr>],
      transforms =
        [Some \<lparr>owner = None, localPosition = Vec3 7 8 9, localRotation = Vec3 0 0 0,
               localScale = Vec3 1 1 1, dirty = True, worldPosition = Vec3 0 0 0,
               worldRotation = Vec3 0 0 0, worldScale = Vec3 1 1 1\<rparr>,
         Some \<lparr>owner = None, localPosition = Vec3 0 0 0, localRotation = Vec3 0 0 0,
               localScale = Vec3 1 1 1, dirty = False, worldPosition = Vec3 0 0 0,
               worldRotation = Vec3 0 0 0, worldScale = Vec3 1 1 1\<rparr>]\<rparr>"
  by (simp add: heap_CP_def CreateNode_def make_shared_Node_def Node_ctor_def
      make_shared_Transform_def new_node_cell_def new_transform_cell_def modify_node_def
      modify_transform_def node_at_def transform_at_def lookup_def weak_from_this_def
      SetLocalPosition_def mark_children_dirty_def lock_def Node_init_def Transform_new_def
      empty_heap_def empty_scene_def Let_def)

text \<open>
  C8 at two scenes. In the first, two roots made by \<open>CreateNode\<close>, \<open>C\<close> has the local
  position (7,8,9), is dirty and has no parent, so that its world position, once recomputed,
  is (7,8,9); \<open>P\<close> is at the origin with scale (1,1,1). After \<open>C->SetParent(P)\<close> the local
  position of \<open>C\<close> is (0,0,0): the owner pointer of the Transform is empty, the getter
  returns the world position cached at construction, and the position the user had set is
  lost. In the second, \<open>heap_apart\<close>, the owners are live and both Transforms are clean; the
  world rotation of \<open>C\<close> at the moment of the call is (1,0,0), that of \<open>P\<close> is (10,0,0).
  After \<open>C->SetParent(P)\<close> the local rotation of \<open>C\<close> is (11,0,0) and its world rotation
  is (21,0,0): the parent pointer is assigned before the getters are called and
  \<open>SetLocalPosition\<close> sets the dirty flag again, so \<open>GetWorldRotation\<close> recomputes over the new
  parent.
\<close>

theorem SetParent_misses_world_values:
  "GetTransform heap_CP 0 = Some 0 \<and> GetParent heap_CP 0 = None \<and>
   GetComponent_Transform heap_CP 1 = Some 1 \<and>
   map_option local_values (transform_at heap_CP 0)
     = Some (Vec3 7 8 9, Vec3 0 0 0, Vec3 1 1 1) \<and>
   map_option dirty (transform_at heap_CP 0) = Some True \<and>
   map_option local_values (transform_at heap_CP 1)
     = Some (Vec3 0 0 0, Vec3 0 0 0, Vec3 1 1 1) \<and>
   (case SetParent 1 0 (Some 1) heap_CP of
      Some (Inr h') \<Rightarrow>
        GetParent h' 0 = Some 1 \<and> GetChildren h' 1 = [0] \<and>
        map_option local_values (transform_at h' 0)
          = Some (Vec3 0 0 0, Vec3 0 0 0, Vec3 1 1 1)
    | _ \<Rightarrow> False) \<and>
   GetTransform heap_apart 1 = Some 3 \<and> GetParent heap_apart 1 = None \<and>
   map_option dirty (transform_at heap_apart 3) = Some False \<and>
   map_option fst (GetWorldRotation 2 3 heap_apart) = Some (Vec3 1 0 0) \<and>
   map_option fst (GetWorldRotation 2 1 heap_apart) = Some (Vec3 10 0 0) \<and>
   (case SetParent 2 1 (Some 0) heap_apart of
      Some (Inr h') \<Rightarrow>
        GetParent h' 1 = Some 0 \<and>
        map_option localRotation (transform_at h' 3) = Some (Vec3 11 0 0) \<and>
        map_option fst (GetWorldRotation 2 3 h') = Some (Vec3 21 0 0)
    | _ \<Rightarrow> False)"
  unfolding heap_CP_cells by code_simp

section \<open>Saving and loading a scene\<close>

lemma map_option_list_cong:
  "(\<And>x. x \<in> set xs \<Longrightarrow> f x = g x) \<Longrightarrow> map_option_list f xs = map_option_list g xs"
  by (induction xs) (simp_all split: option.splits)

lemma map_option_list_snoc:
  assumes "map_option_list f xs = Some ys" and "f x = Some y"
  shows "map_option_list f (xs @ [x]) = Some (ys @ [y])"
  using assms by (induction xs arbitrary: ys) (auto split: option.splits)

lemma node_obs_Some:
  assumes "node_obs h' x = node_obs h x" and "node_at h x = Some N"
  shows "\<exists>N'. node_at h' x = Some N' \<and> name N' = name N \<and> active N' = active N \<and>
           children N' = children N \<and> components N' TypeTransform = components N TypeTransform"
  using assms by (auto simp: node_obs_def)

lemma node_obs_None:
  assumes "node_obs h' x = node_obs h x" and "node_at h x = None"
  shows "node_at h' x = None"
  using assms by (simp add: node_obs_def)

lemma node_view_agree:
  assumes cl: "closed_from lo tlo h" and ag: "agree_from lo tlo h h'"
  shows "lo \<le> x \<Longrightarrow> x < length (nodes h) \<Longrightarrow> node_view k h' x = node_view k h x"
proof (induction k arbitrary: x)
  case 0
  show ?case by simp
next
  case (Suc k)
  from ag Suc.prems have obs: "node_obs h' x = node_obs h x"
    by (simp add: agree_from_def)
  show ?case
  proof (cases "node_at h x")
    case None
    with obs have "node_at h' x = None"
      by (rule node_obs_None)
    with None show ?thesis by simp
  next
    case (Some N)
    with obs obtain N' where N': "node_at h' x = Some N'" "name N' = name N"
      "active N' = active N" "children N' = children N"
      "components N' TypeTransform = components N TypeTransform"
      using node_obs_Some by blast
    from cl Suc.prems(1) Some
    have ch: "\<And>c. c \<in> set (children N) \<Longrightarrow> lo \<le> c \<and> c < length (nodes h)"
      and tr: "\<And>t. components N TypeTransform = Some t \<Longrightarrow>
                 tlo \<le> t \<and> t < length (transforms h)"
      by (auto simp: closed_from_def)
    have kids: "map_option_list (node_view k h') (children N)
                  = map_option_list (node_view k h) (children N)"
      by (rule map_option_list_cong) (simp add: Suc.IH ch)
    have loc: "node_locals h' N' = node_locals h N"
    proof (cases "components N TypeTransform")
      case None
      with N'(5) show ?thesis by (simp add: node_locals_def)
    next
      case (Some t)
      with tr have "tlo \<le> t \<and> t < length (transforms h)" by simp
      with ag have "locals_at h' t = locals_at h t"
        by (simp add: agree_from_def)
      with Some N'(5) show ?thesis by (simp add: node_locals_def)
    qed
    from Some N'(1-4) kids loc show ?thesis
      by (simp split: option.splits)
  qed
qed

lemma Vec3_round_trip: "Vec3_Deserialize (Vec3_Serialize v) w = Inr v"
  by (cases v)
    (simp add: Vec3_Deserialize_def Vec3_Serialize_def read_float_def json_at_def get_float_def)

lemma Transform_round_trip:
  "Transform_Deserialize (Transform_Serialize T0) T =
     Inr (T\<lparr>localPosition := localPosition T0, localRotation := localRotation T0,
            localScale := localScale T0, dirty := True\<rparr>)"
  by (simp add: Transform_Deserialize_def Transform_Serialize_def json_at_def Vec3_round_trip)

lemma Deserialize_head_Serialize:
  fixes h h0 :: "'a::{zero,one} heap"
  assumes N: "node_at h a = Some N" and t: "transform N = Some t"
    and T: "transform_at h t = Some T"
    and cs: "components_json h0 N0 = Some cs"
  shows "\<exists>h5 N5.
           Deserialize_head
             (JObject [(''active'', JBool (active N0)), (''children'', JArray ks),
                       (''components'', JArray cs), (''name'', JString (name N0))]) a h
             = Inr h5 \<and>
           node_at h5 a = Some N5 \<and> name N5 = name N0 \<and> active N5 = active N0 \<and>
           children N5 = [] \<and> components N5 TypeTransform = Some t \<and>
           locals_at h5 t =
             Some (case node_locals h0 N0 of None \<Rightarrow> local_values T | Some v \<Rightarrow> v)"
proof (cases "components N0 TypeTransform")
  case None
  with cs have "cs = []"
    by (simp add: components_json_def)
  with N t T None show ?thesis
    by (simp add: Deserialize_head_def read_string_def read_bool_def json_at_def
        get_string_def get_bool_def json_items_def Let_def store_simps
        keep_Transform_only_def locals_at_def node_locals_def)
next
  case (Some c)
  with cs obtain T0 where T0: "transform_at h0 c = Some T0"
    and cs': "cs = [JObject [(''data'', Transform_Serialize T0),
                             (''type'', JString ''Transform'')]]"
    by (auto simp: components_json_def component_entry_def split: option.splits)
  let ?h3 = "modify_node a keep_Transform_only
               (modify_node a (\<lambda>N. N\<lparr>active := active N0\<rparr>)
                  (modify_node a (\<lambda>N. N\<lparr>name := name N0\<rparr>) h))"
  let ?T' = "T\<lparr>localPosition := localPosition T0, localRotation := localRotation T0,
               localScale := localScale T0, dirty := True\<rparr>"
  have get: "GetTransform ?h3 a = Some t"
    using N t by (simp add: GetTransform_def store_simps keep_Transform_only_def)
  have T3: "transform_at ?h3 t = Some T"
    using T by (simp add: store_simps)
  have comps: "Deserialize_components cs a ?h3 = Inr (modify_transform t (\<lambda>_. ?T') ?h3)"
    using get T3
    by (simp add: cs' read_string_def json_at_def get_string_def Transform_Deserialize_at_def
        Transform_round_trip)
  have head: "Deserialize_head
             (JObject [(''active'', JBool (active N0)), (''children'', JArray ks),
                       (''components'', JArray cs), (''name'', JString (name N0))]) a h
             = Inr (modify_node a (\<lambda>N. N\<lparr>children := []\<rparr>)
                      (modify_transform t (\<lambda>_. ?T') ?h3))"
    using comps
    by (simp add: Deserialize_head_def read_string_def read_bool_def json_at_def
        get_string_def get_bool_def json_items_def Let_def)
  have loc: "node_locals h0 N0 = Some (local_values T0)"
    using Some T0 by (simp add: node_locals_def locals_at_def)
  show ?thesis
    using N t T
    by (simp add: head loc store_simps keep_Transform_only_def locals_at_def local_values_def)
qed

lemma closed_from_agree:
  assumes cl: "closed_from lo tlo h" and ag: "agree_from lo tlo h h'"
    and ln: "length (nodes h') = length (nodes h)"
    and lt: "length (transforms h') = length (transforms h)"
  shows "closed_from lo tlo h'"
  unfolding closed_from_def
proof (intro allI impI)
  fix x N'
  assume x: "lo \<le> x \<and> node_at h' x = Some N'"
  then have "x < length (nodes h)"
    using ln node_at_Some_less by fastforce
  with ag x have obs: "node_obs h' x = node_obs h x"
    by (simp add: agree_from_def)
  with x obtain N where N: "node_at h x = Some N" "children N = children N'"
    "components N TypeTransform = components N' TypeTransform"
    by (cases "node_at h x") (auto simp: node_obs_def)
  from cl x N(1)
  have "(\<forall>c \<in> set (children N). lo \<le> c \<and> c < length (nodes h)) \<and>
        (\<forall>t. components N TypeTransform = Some t \<longrightarrow> tlo \<le> t \<and> t < length (transforms h))"
    unfolding closed_from_def by blast
  then show "(\<forall>c \<in> set (children N'). lo \<le> c \<and> c < length (nodes h')) \<and>
        (\<forall>t. components N' TypeTransform = Some t \<longrightarrow> tlo \<le> t \<and> t < length (transforms h'))"
    by (simp add: N(2,3) ln lt)
qed

lemma agree_from_trans:
  assumes "agree_from lo tlo h h1" and "agree_from lo tlo h1 h2"
    and "length (nodes h) \<le> length (nodes h1)"
    and "length (transforms h) \<le> length (transforms h1)"
  shows "agree_from lo tlo h h2"
  using assms by (simp add: agree_from_def)

text \<open>Appending a child to an older node and setting the parent pointer of a node.\<close>

lemma agree_from_attach:
  assumes "a < lo"
  shows "agree_from lo tlo h (modify_node c (\<lambda>N. N\<lparr>parent := p\<rparr>) (AddChild a c h))"
  using assms
  by (auto simp: agree_from_def node_obs_def locals_at_def AddChild_def store_simps
      option.map_comp comp_def)

text \<open>
  One pass of the loops of \<open>Node::Deserialize\<close> and \<open>Scene::Deserialize\<close>: a new node is
  made and loaded from the document of a node \<open>c0\<close> of the original heap \<open>h0\<close>. The first
  assumption is the statement for the recursive call.
\<close>

lemma load_fresh:
  fixes h0 g :: "'a::{zero,one} heap"
  assumes IH: "\<And>a0 j a (h :: 'a heap) N t T.
      \<lbrakk>Node_Serialize k h0 a0 = Some j; node_at h a = Some N; transform N = Some t;
       transform_at h t = Some T; local_values T = default_locals\<rbrakk>
      \<Longrightarrow> \<exists>h' v. Node_Deserialize j a h = Inr h' \<and> node_view k h0 a0 = Some v \<and>
                 node_view k h' a = Some (loaded v) \<and> node_loaded h a t h'"
    and ser: "Node_Serialize k h0 c0 = Some jc"
    and mk: "make_shared_Node nm g = (c, g1)"
    and cl: "closed_from lo tlo g"
    and lo: "lo \<le> length (nodes g)" and tlo: "tlo \<le> length (transforms g)"
  shows "\<exists>g2 v0. Node_Deserialize jc c g1 = Inr g2 \<and> node_view k h0 c0 = Some v0 \<and>
           node_view k g2 c = Some (loaded v0) \<and>
           closed_from lo tlo g2 \<and> agree_from lo tlo g g2 \<and>
           closed_from c (length (transforms g)) g2 \<and>
           length (nodes g) < length (nodes g2) \<and>
           length (transforms g) \<le> length (transforms g2) \<and>
           (\<forall>b < length (nodes g). node_at g2 b = node_at g b)"
proof -
  let ?tg = "length (transforms g)"
  note f = make_shared_Node_facts [OF mk]
  have c: "c = length (nodes g)"
    by (rule f(1))
  have Nc1: "node_at g1 c = Some (fresh_Node nm c ?tg)"
    using f(6) c by simp
  have t1: "transform (fresh_Node nm c ?tg) = Some ?tg"
    by (simp add: fresh_Node_def)
  have T1: "transform_at g1 ?tg = Some (Transform_new\<lparr>dirty := False\<rparr>)"
    by (rule f(7))
  have d1: "local_values (Transform_new\<lparr>dirty := False\<rparr> :: 'a Transform) = default_locals"
    by (simp add: local_values_def default_locals_def Transform_new_def)
  from IH [OF ser Nc1 t1 T1 d1] obtain g2 v0
    where ld: "Node_Deserialize jc c g1 = Inr g2"
      and v0: "node_view k h0 c0 = Some v0" "node_view k g2 c = Some (loaded v0)"
      and nl: "node_loaded g1 c ?tg g2"
    by blast
  from nl obtain Nc where Nc: "node_at g2 c = Some Nc"
      "components Nc TypeTransform = Some ?tg"
      "\<And>d. d \<in> set (children Nc) \<Longrightarrow> Suc c \<le> d \<and> d < length (nodes g2)"
    and cl2: "closed_from (Suc c) (Suc ?tg) g2"
    by (auto simp: node_loaded_def f(2,3) c)
  have "c < length (nodes g1)"
    by (simp add: f(2) c)
  then have "node_frame c g1 (heap_of (Node_Deserialize jc c g1))"
    by (rule Deserialize_frames(1))
  with ld have fr: "node_frame c g1 g2"
    by simp
  have gt: "GetTransform g1 c = Some ?tg"
    using Nc1 by (simp add: GetTransform_def fresh_Node_def)
  from fr gt have len: "Suc c \<le> length (nodes g2)" "Suc ?tg \<le> length (transforms g2)"
    and old_n: "\<And>b. b < c \<Longrightarrow> node_at g2 b = node_at g b"
    and old_t: "\<And>t. t < ?tg \<Longrightarrow> transform_at g2 t = transform_at g t"
    by (simp_all add: node_frame_def unchanged_nodes_def unchanged_transforms_def f c)
  have ag: "agree_from lo tlo g g2"
    using old_n old_t by (simp add: agree_from_def node_obs_def locals_at_def c)
  have below: "(\<forall>d \<in> set (children N). lo \<le> d \<and> d < length (nodes g2)) \<and>
        (\<forall>t. components N TypeTransform = Some t \<longrightarrow> tlo \<le> t \<and> t < length (transforms g2))"
    if "lo \<le> x" "x < c" "node_at g2 x = Some N" for x N
  proof -
    from that old_n have "node_at g x = Some N"
      by simp
    with cl that(1)
    have "(\<forall>d \<in> set (children N). lo \<le> d \<and> d < length (nodes g)) \<and>
        (\<forall>t. components N TypeTransform = Some t \<longrightarrow> tlo \<le> t \<and> t < length (transforms g))"
      unfolding closed_from_def by blast
    with len c show ?thesis
      by auto
  qed
  have above: "(\<forall>d \<in> set (children N). c \<le> d \<and> d < length (nodes g2)) \<and>
        (\<forall>t. components N TypeTransform = Some t \<longrightarrow> ?tg \<le> t \<and> t < length (transforms g2))"
    if "c \<le> x" "node_at g2 x = Some N" for x N
  proof (cases "x = c")
    case True
    with that Nc(1) have "N = Nc"
      by simp
    with Nc(2,3) len show ?thesis
      by (auto dest: Suc_leD)
  next
    case False
    with that have "Suc c \<le> x"
      by simp
    with cl2 that(2)
    have "(\<forall>d \<in> set (children N). Suc c \<le> d \<and> d < length (nodes g2)) \<and>
        (\<forall>t. components N TypeTransform = Some t \<longrightarrow>
           Suc ?tg \<le> t \<and> t < length (transforms g2))"
      unfolding closed_from_def by blast
    then show ?thesis
      by (auto dest: Suc_leD)
  qed
  have cl_c: "closed_from c ?tg g2"
    unfolding closed_from_def using above by blast
  have cl_lo: "closed_from lo tlo g2"
    unfolding closed_from_def
  proof (intro allI impI)
    fix x N
    assume x: "lo \<le> x \<and> node_at g2 x = Some N"
    show "(\<forall>d \<in> set (children N). lo \<le> d \<and> d < length (nodes g2)) \<and>
        (\<forall>t. components N TypeTransform = Some t \<longrightarrow> tlo \<le> t \<and> t < length (transforms g2))"
    proof (cases "x < c")
      case True
      with x show ?thesis
        using below by blast
    next
      case False
      then have "c \<le> x" by simp
      with x have "(\<forall>d \<in> set (children N). c \<le> d \<and> d < length (nodes g2)) \<and>
        (\<forall>t. components N TypeTransform = Some t \<longrightarrow> ?tg \<le> t \<and> t < length (transforms g2))"
        using above by blast
      with lo tlo c show ?thesis
        by auto
    qed
  qed
  from ld v0 cl_lo ag cl_c len old_n c show ?thesis
    by auto
qed

lemma closed_from_end: "closed_from (length (nodes h)) tlo h"
  by (auto simp: closed_from_def dest: node_at_Some_less)

text \<open>The loop over \<open>j["children"]\<close>, on the documents of the children of an original node.\<close>

lemma children_round_trip:
  fixes h0 g :: "'a::{zero,one} heap"
  assumes IH: "\<And>a0 j a (h :: 'a heap) N t T.
      \<lbrakk>Node_Serialize k h0 a0 = Some j; node_at h a = Some N; transform N = Some t;
       transform_at h t = Some T; local_values T = default_locals\<rbrakk>
      \<Longrightarrow> \<exists>h' v. Node_Deserialize j a h = Inr h' \<and> node_view k h0 a0 = Some v \<and>
                 node_view k h' a = Some (loaded v) \<and> node_loaded h a t h'"
  shows "\<lbrakk>map_option_list (Node_Serialize k h0) cs0 = Some ks; node_at g a = Some Na; a < lo;
          lo \<le> length (nodes g); tlo \<le> length (transforms g);
          \<forall>c \<in> set (children Na). lo \<le> c \<and> c < length (nodes g);
          closed_from lo tlo g;
          map_option_list (node_view k g) (children Na) = Some dvs\<rbrakk>
         \<Longrightarrow> \<exists>g' vs Na'. Deserialize_children ks a g = Inr g' \<and>
               map_option_list (node_view k h0) cs0 = Some vs \<and>
               node_at g' a = Some Na' \<and>
               map_option_list (node_view k g') (children Na') = Some (dvs @ map loaded vs) \<and>
               (\<forall>c \<in> set (children Na'). lo \<le> c \<and> c < length (nodes g')) \<and>
               closed_from lo tlo g'"
proof (induction cs0 arbitrary: ks g Na dvs)
  case Nil
  then show ?case
    by simp
next
  case (Cons c0 cs0)
  note Na = \<open>node_at g a = Some Na\<close> and a = \<open>a < lo\<close>
    and lo = \<open>lo \<le> length (nodes g)\<close> and tlo = \<open>tlo \<le> length (transforms g)\<close>
    and range = \<open>\<forall>c \<in> set (children Na). lo \<le> c \<and> c < length (nodes g)\<close>
    and cl = \<open>closed_from lo tlo g\<close>
    and views = \<open>map_option_list (node_view k g) (children Na) = Some dvs\<close>
  from Cons.prems(1) obtain jc ks' where ser: "Node_Serialize k h0 c0 = Some jc"
    and rest: "map_option_list (Node_Serialize k h0) cs0 = Some ks'"
    and ks: "ks = jc # ks'"
    by (auto split: option.splits)
  obtain c g1 where mk: "make_shared_Node ''Node'' g = (c, g1)"
    by (cases "make_shared_Node ''Node'' g :: addr \<times> 'a heap")
  have c: "c = length (nodes g)"
    using mk by (rule make_shared_Node_facts(1))
  have "\<exists>g2 v0. Node_Deserialize jc c g1 = Inr g2 \<and> node_view k h0 c0 = Some v0 \<and>
           node_view k g2 c = Some (loaded v0) \<and>
           closed_from lo tlo g2 \<and> agree_from lo tlo g g2 \<and>
           closed_from c (length (transforms g)) g2 \<and>
           length (nodes g) < length (nodes g2) \<and>
           length (transforms g) \<le> length (transforms g2) \<and>
           (\<forall>b < length (nodes g). node_at g2 b = node_at g b)"
    by (rule load_fresh [OF _ ser mk cl lo tlo]) (rule IH)
  then obtain g2 v0
    where ld: "Node_Deserialize jc c g1 = Inr g2"
      and v0: "node_view k h0 c0 = Some v0" "node_view k g2 c = Some (loaded v0)"
      and cl2: "closed_from lo tlo g2" and ag2: "agree_from lo tlo g g2"
      and clc: "closed_from c (length (transforms g)) g2"
      and len: "length (nodes g) < length (nodes g2)"
        "length (transforms g) \<le> length (transforms g2)"
      and old: "\<And>b. b < length (nodes g) \<Longrightarrow> node_at g2 b = node_at g b"
    by blast
  define g4 where
    "g4 = modify_node c (\<lambda>N. N\<lparr>parent := weak_from_this g2 a\<rparr>) (AddChild a c g2)"
  define Na4 where "Na4 = Na\<lparr>children := children Na @ [c]\<rparr>"
  have step: "Deserialize_children ks a g = Deserialize_children ks' a g4"
    using mk ld by (simp add: ks g4_def)
  have ac: "a < c"
    using a lo c by simp
  have a2: "node_at g2 a = Some Na"
    using old [of a] ac c Na by simp
  have notin: "c \<notin> set (children Na)"
    using range c by auto
  have Na4: "node_at g4 a = Some Na4"
    using a2 ac notin by (simp add: g4_def Na4_def AddChild_def store_simps)
  have ch4: "children Na4 = children Na @ [c]"
    by (simp add: Na4_def)
  have len4: "length (nodes g4) = length (nodes g2)"
    "length (transforms g4) = length (transforms g2)"
    by (simp_all add: g4_def AddChild_def store_simps)
  have ag24: "agree_from lo tlo g2 g4"
    unfolding g4_def using a by (rule agree_from_attach)
  have ag24c: "agree_from c (length (transforms g)) g2 g4"
    unfolding g4_def using ac by (rule agree_from_attach)
  have cl4: "closed_from lo tlo g4"
    using cl2 ag24 len4 by (rule closed_from_agree)
  have ag4: "agree_from lo tlo g g4"
    using ag2 ag24 len by (simp add: agree_from_trans)
  have "map_option_list (node_view k g4) (children Na)
          = map_option_list (node_view k g) (children Na)"
  proof (rule map_option_list_cong)
    fix d assume "d \<in> set (children Na)"
    with range have "lo \<le> d" "d < length (nodes g)"
      by simp_all
    with cl ag4 show "node_view k g4 d = node_view k g d"
      by (rule node_view_agree)
  qed
  with views have views_old: "map_option_list (node_view k g4) (children Na) = Some dvs"
    by simp
  have "node_view k g4 c = node_view k g2 c"
    using clc ag24c by (rule node_view_agree) (simp_all add: c len)
  with v0(2) have view_c: "node_view k g4 c = Some (loaded v0)"
    by simp
  have views4: "map_option_list (node_view k g4) (children Na4) = Some (dvs @ [loaded v0])"
    unfolding ch4 using views_old view_c by (rule map_option_list_snoc)
  have lo4: "lo \<le> length (nodes g4)" and tlo4: "tlo \<le> length (transforms g4)"
    using lo tlo len len4 by simp_all
  have range4: "\<forall>d \<in> set (children Na4). lo \<le> d \<and> d < length (nodes g4)"
    using range lo len len4 c by (auto simp: ch4)
  from Cons.IH [OF rest Na4 a lo4 tlo4 range4 cl4 views4] obtain g' vs' Na'
    where r: "Deserialize_children ks' a g4 = Inr g'"
      "map_option_list (node_view k h0) cs0 = Some vs'"
      "node_at g' a = Some Na'"
      "map_option_list (node_view k g') (children Na') = Some ((dvs @ [loaded v0]) @ map loaded vs')"
      "\<forall>c \<in> set (children Na'). lo \<le> c \<and> c < length (nodes g')"
      "closed_from lo tlo g'"
    by blast
  have "map_option_list (node_view k h0) (c0 # cs0) = Some (v0 # vs')"
    using v0(1) r(2) by simp
  moreover have "map_option_list (node_view k g') (children Na')
                   = Some (dvs @ map loaded (v0 # vs'))"
    using r(4) by simp
  moreover have "Deserialize_children ks a g = Inr g'"
    using step r(1) by simp
  ultimately show ?case
    using r(3,5,6) by blast
qed

text \<open>The loop of \<open>Scene::Deserialize\<close>, on the documents of the original roots.\<close>

lemma roots_round_trip:
  fixes h0 g :: "'a::{zero,one} heap"
  assumes IH: "\<And>a0 j a (h :: 'a heap) N t T.
      \<lbrakk>Node_Serialize k h0 a0 = Some j; node_at h a = Some N; transform N = Some t;
       transform_at h t = Some T; local_values T = default_locals\<rbrakk>
      \<Longrightarrow> \<exists>h' v. Node_Deserialize j a h = Inr h' \<and> node_view k h0 a0 = Some v \<and>
                 node_view k h' a = Some (loaded v) \<and> node_loaded h a t h'"
  shows "\<lbrakk>map_option_list (Node_Serialize k h0) rs0 = Some ks;
          lo \<le> length (nodes g); tlo \<le> length (transforms g);
          \<forall>c \<in> set (rootNodes s). lo \<le> c \<and> c < length (nodes g);
          closed_from lo tlo g;
          map_option_list (node_view k g) (rootNodes s) = Some dvs\<rbrakk>
         \<Longrightarrow> \<exists>g' s' vs. Deserialize_roots ks g s = Inr (g', s') \<and>
               map_option_list (node_view k h0) rs0 = Some vs \<and>
               map_option_list (node_view k g') (rootNodes s') = Some (dvs @ map loaded vs)"
proof (induction rs0 arbitrary: ks g s dvs)
  case Nil
  then show ?case
    by simp
next
  case (Cons c0 rs0)
  note lo = \<open>lo \<le> length (nodes g)\<close> and tlo = \<open>tlo \<le> length (transforms g)\<close>
    and range = \<open>\<forall>c \<in> set (rootNodes s). lo \<le> c \<and> c < length (nodes g)\<close>
    and cl = \<open>closed_from lo tlo g\<close>
    and views = \<open>map_option_list (node_view k g) (rootNodes s) = Some dvs\<close>
  from Cons.prems(1) obtain jc ks' where ser: "Node_Serialize k h0 c0 = Some jc"
    and rest: "map_option_list (Node_Serialize k h0) rs0 = Some ks'"
    and ks: "ks = jc # ks'"
    by (auto split: option.splits)
  obtain c g1 where mk: "make_shared_Node ''Node'' g = (c, g1)"
    by (cases "make_shared_Node ''Node'' g :: addr \<times> 'a heap")
  have c: "c = length (nodes g)"
    using mk by (rule make_shared_Node_facts(1))
  have "\<exists>g2 v0. Node_Deserialize jc c g1 = Inr g2 \<and> node_view k h0 c0 = Some v0 \<and>
           node_view k g2 c = Some (loaded v0) \<and>
           closed_from lo tlo g2 \<and> agree_from lo tlo g g2 \<and>
           closed_from c (length (transforms g)) g2 \<and>
           length (nodes g) < length (nodes g2) \<and>
           length (transforms g) \<le> length (transforms g2) \<and>
           (\<forall>b < length (nodes g). node_at g2 b = node_at g b)"
    by (rule load_fresh [OF _ ser mk cl lo tlo]) (rule IH)
  then obtain g2 v0
    where ld: "Node_Deserialize jc c g1 = Inr g2"
      and v0: "node_view k h0 c0 = Some v0" "node_view k g2 c = Some (loaded v0)"
      and cl2: "closed_from lo tlo g2" and ag2: "agree_from lo tlo g g2"
      and len: "length (nodes g) < length (nodes g2)"
        "length (transforms g) \<le> length (transforms g2)"
    by blast
  define s2 where "s2 = s\<lparr>rootNodes := rootNodes s @ [c]\<rparr>"
  have step: "Deserialize_roots ks g s = Deserialize_roots ks' g2 s2"
    using mk ld by (simp add: ks s2_def)
  have r2: "rootNodes s2 = rootNodes s @ [c]"
    by (simp add: s2_def)
  have "map_option_list (node_view k g2) (rootNodes s)
          = map_option_list (node_view k g) (rootNodes s)"
  proof (rule map_option_list_cong)
    fix d assume "d \<in> set (rootNodes s)"
    with range have "lo \<le> d" "d < length (nodes g)"
      by simp_all
    with cl ag2 show "node_view k g2 d = node_view k g d"
      by (rule node_view_agree)
  qed
  with views have "map_option_list (node_view k g2) (rootNodes s) = Some dvs"
    by simp
  then have views2: "map_option_list (node_view k g2) (rootNodes s2) = Some (dvs @ [loaded v0])"
    unfolding r2 using v0(2) by (rule map_option_list_snoc)
  have lo2: "lo \<le> length (nodes g2)" and tlo2: "tlo \<le> length (transforms g2)"
    using lo tlo len by simp_all
  have range2: "\<forall>d \<in> set (rootNodes s2). lo \<le> d \<and> d < length (nodes g2)"
    using range lo len c by (auto simp: r2)
  from Cons.IH [OF rest lo2 tlo2 range2 cl2 views2] obtain g' s' vs'
    where r: "Deserialize_roots ks' g2 s2 = Inr (g', s')"
      "map_option_list (node_view k h0) rs0 = Some vs'"
      "map_option_list (node_view k g') (rootNodes s') = Some ((dvs @ [loaded v0]) @ map loaded vs')"
    by blast
  have "map_option_list (node_view k h0) (c0 # rs0) = Some (v0 # vs')"
    using v0(1) r(2) by simp
  moreover have "map_option_list (node_view k g') (rootNodes s')
                   = Some (dvs @ map loaded (v0 # vs'))"
    using r(3) by simp
  moreover have "Deserialize_roots ks g s = Inr (g', s')"
    using step r(1) by simp
  ultimately show ?case
    by blast
qed

text \<open>
  \<open>Node::Deserialize\<close> on the document of an original node \<open>a0\<close>, called on a node as
  \<open>std::make_shared<Node>()\<close> leaves it: the call returns and the node shows the tree
  that \<open>a0\<close> showed.
\<close>

lemma Node_round_trip:
  fixes h0 h :: "'a::{zero,one} heap"
  shows "\<lbrakk>Node_Serialize k h0 a0 = Some j; node_at h a = Some N; transform N = Some t;
          transform_at h t = Some T; local_values T = default_locals\<rbrakk>
         \<Longrightarrow> \<exists>h' v. Node_Deserialize j a h = Inr h' \<and> node_view k h0 a0 = Some v \<and>
               node_view k h' a = Some (loaded v) \<and> node_loaded h a t h'"
proof (induction k arbitrary: a0 j a h N t T)
  case 0
  then show ?case
    by simp
next
  case (Suc k)
  note N = \<open>node_at h a = Some N\<close> and t = \<open>transform N = Some t\<close>
    and T = \<open>transform_at h t = Some T\<close> and dflt = \<open>local_values T = default_locals\<close>
  from Suc.prems(1) obtain N0 cs ks where N0: "node_at h0 a0 = Some N0"
    and cs: "components_json h0 N0 = Some cs"
    and kids: "map_option_list (Node_Serialize k h0) (children N0) = Some ks"
    and j: "j = JObject [(''active'', JBool (active N0)), (''children'', JArray ks),
                         (''components'', JArray cs), (''name'', JString (name N0))]"
    by (auto split: option.splits)
  from Deserialize_head_Serialize [OF N t T cs, of ks] obtain h5 N5
    where head: "Deserialize_head j a h = Inr h5"
      and N5: "node_at h5 a = Some N5" "name N5 = name N0" "active N5 = active N0"
        "children N5 = []" "components N5 TypeTransform = Some t"
      and loc5: "locals_at h5 t =
                   Some (case node_locals h0 N0 of None \<Rightarrow> local_values T | Some v \<Rightarrow> v)"
    unfolding j by blast
  have "head_frame a h (heap_of (Deserialize_head j a h))"
    by (rule Deserialize_head_frame)
  with head have len5: "length (nodes h5) = length (nodes h)"
    "length (transforms h5) = length (transforms h)"
    by (simp_all add: head_frame_def)
  have a: "a < length (nodes h5)"
    using N5(1) by (rule node_at_Some_less)
  have t5: "t < length (transforms h5)"
    using T len5 by (simp add: transform_at_Some_less)
  have "\<exists>h' vs Na'. Deserialize_children ks a h5 = Inr h' \<and>
          map_option_list (node_view k h0) (children N0) = Some vs \<and>
          node_at h' a = Some Na' \<and>
          map_option_list (node_view k h') (children Na') = Some ([] @ map loaded vs) \<and>
          (\<forall>c \<in> set (children Na'). length (nodes h5) \<le> c \<and> c < length (nodes h')) \<and>
          closed_from (length (nodes h5)) (length (transforms h5)) h'"
  proof (rule children_round_trip [OF _ kids N5(1) a])
    show "closed_from (length (nodes h5)) (length (transforms h5)) h5"
      by (rule closed_from_end)
  qed (rule Suc.IH, assumption+, simp_all add: N5(4))
  then obtain h' vs Na' where loop: "Deserialize_children ks a h5 = Inr h'"
    and vs: "map_option_list (node_view k h0) (children N0) = Some vs"
    and Na': "node_at h' a = Some Na'"
      "map_option_list (node_view k h') (children Na') = Some (map loaded vs)"
      "\<forall>c \<in> set (children Na'). length (nodes h5) \<le> c \<and> c < length (nodes h')"
    and cl: "closed_from (length (nodes h5)) (length (transforms h5)) h'"
    by auto
  have run: "Node_Deserialize j a h = Inr h'"
    using head loop by (simp add: Node_Deserialize.simps j json_at_def json_items_def)
  from a have "loop_frame a h5 (heap_of (Deserialize_children ks a h5))"
    by (rule Deserialize_frames(2))
  with loop have oc: "only_children a h5 h'" and ut: "unchanged_transforms None h5 h'"
    by (simp_all add: loop_frame_def)
  from oc N5(1) Na'(1) obtain cs' where "Na' = N5\<lparr>children := cs'\<rparr>"
    by (auto simp: only_children_def)
  with N5 have same: "name Na' = name N0" "active Na' = active N0"
    "components Na' TypeTransform = Some t"
    by simp_all
  from ut t5 have "transform_at h' t = transform_at h5 t"
    by (simp add: unchanged_transforms_def)
  then have "locals_at h' t = locals_at h5 t"
    by (simp add: locals_at_def)
  with loc5 have loc: "node_locals h' Na' =
      Some (case node_locals h0 N0 of None \<Rightarrow> default_locals | Some v \<Rightarrow> v)"
    unfolding dflt by (simp add: node_locals_def same(3))
  have v0: "node_view (Suc k) h0 a0
              = Some (NTree (name N0) (active N0) (node_locals h0 N0) vs)"
    using N0 vs by simp
  have v': "node_view (Suc k) h' a
              = Some (loaded (NTree (name N0) (active N0) (node_locals h0 N0) vs))"
    using Na'(1,2) same loc by simp
  have nl: "node_loaded h a t h'"
    using Na'(1,3) same(3) cl by (auto simp: node_loaded_def len5)
  from run v0 v' nl show ?case
    by blast
qed

text \<open>\<open>Node::Serialize\<close> returns a document for a node whose subtree is finite.\<close>

lemma map_option_list_Some:
  "(\<And>x. x \<in> set xs \<Longrightarrow> \<exists>y. f x = Some y) \<Longrightarrow> \<exists>ys. map_option_list f xs = Some ys"
proof (induction xs)
  case Nil
  show ?case by simp
next
  case (Cons x xs)
  from Cons.prems obtain y where "f x = Some y"
    by auto
  moreover from Cons obtain ys where "map_option_list f xs = Some ys"
    by auto
  ultimately show ?case
    by simp
qed

lemma components_live_entry:
  assumes "components_live h" and "node_at h a = Some N"
  shows "\<exists>cs. components_json h N = Some cs"
proof (cases "components N TypeTransform")
  case None
  then show ?thesis
    by (simp add: components_json_def)
next
  case (Some t)
  from assms(2) have "a < length (nodes h)" "nodes h ! a = Some N"
    by (simp_all add: node_at_def lookup_def split: if_splits)
  then have "Some N \<in> set (nodes h)"
    by (metis nth_mem)
  with assms(1) Some obtain T where "transform_at h t = Some T"
    by (auto simp: components_live_def list_all_iff split: option.splits)
  with Some show ?thesis
    by (simp add: components_json_def component_entry_def)
qed

lemma Node_Serialize_returns:
  assumes live: "components_live h"
  shows "subtree_within k h a \<Longrightarrow> \<exists>j. Node_Serialize k h a = Some j"
proof (induction k arbitrary: a)
  case 0
  then show ?case by simp
next
  case (Suc k)
  from Suc.prems obtain N where N: "node_at h a = Some N"
    and kids: "list_all (subtree_within k h) (children N)"
    by (auto split: option.splits)
  from components_live_entry [OF live N] obtain cs where cs: "components_json h N = Some cs"
    by blast
  have "\<exists>ks. map_option_list (Node_Serialize k h) (children N) = Some ks"
    by (rule map_option_list_Some) (use kids Suc.IH in \<open>simp add: list_all_iff\<close>)
  with N cs show ?case
    by auto
qed

text \<open>
  C1. For a scene whose trees have depth at most \<open>k\<close>, \<open>Scene::Serialize\<close> returns a
  document, and \<open>Scene::Deserialize\<close> on that document, called on any scene in any heap,
  returns; the new roots show the trees the original roots showed: the same sequence of
  roots and of children at every node, the same names, the same active flags and the same
  local position, rotation and scale of the Transform at every node that had one. A node
  that had lost its Transform is loaded with the Transform its constructor makes.
\<close>

theorem Scene_round_trip:
  fixes h g :: "'a::{zero,one} heap"
  assumes fin: "list_all (subtree_within k h) (rootNodes s)" and live: "components_live h"
  shows "\<exists>j h' s' ts. Scene_Serialize k h s = Some j \<and>
           Scene_Deserialize j g s0 = Inr (h', s') \<and>
           scene_view k h s = Some ts \<and> scene_view k h' s' = Some (map loaded ts)"
proof -
  have "\<exists>rs. map_option_list (Node_Serialize k h) (rootNodes s) = Some rs"
    by (rule map_option_list_Some)
      (use fin in \<open>simp add: list_all_iff Node_Serialize_returns [OF live]\<close>)
  then obtain rs where rs: "map_option_list (Node_Serialize k h) (rootNodes s) = Some rs"
    by blast
  define j where "j = JObject [(''rootNodes'', JArray rs)]"
  have ser: "Scene_Serialize k h s = Some j"
    using rs by (simp add: Scene_Serialize_def j_def)
  let ?s0 = "s0\<lparr>rootNodes := []\<rparr>"
  have "\<exists>g' s' vs. Deserialize_roots rs g ?s0 = Inr (g', s') \<and>
          map_option_list (node_view k h) (rootNodes s) = Some vs \<and>
          map_option_list (node_view k g') (rootNodes s') = Some ([] @ map loaded vs)"
  proof (rule roots_round_trip [OF _ rs])
    show "closed_from (length (nodes g)) (length (transforms g)) g"
      by (rule closed_from_end)
  qed (rule Node_round_trip, assumption+, simp_all)
  then obtain g' s' vs where "Deserialize_roots rs g ?s0 = Inr (g', s')"
    and "map_option_list (node_view k h) (rootNodes s) = Some vs"
    and "map_option_list (node_view k g') (rootNodes s') = Some (map loaded vs)"
    by auto
  moreover have "Scene_Deserialize j g s0 = Deserialize_roots rs g ?s0"
    by (simp add: Scene_Deserialize_def j_def json_at_def json_items_def)
  ultimately show ?thesis
    using ser by (simp add: scene_view_def)
qed

theorem Scene_round_trip_witness:
  "list_all (subtree_within 2 heap_saved) (rootNodes scene_saved) \<and>
   components_live heap_saved \<and>
   scene_view 2 heap_saved scene_saved = Some [tree_saved] \<and>
   (\<exists>j h' s'. Scene_Serialize 2 heap_saved scene_saved = Some j \<and>
       Scene_Deserialize j heap_saved scene_saved = Inr (h', s') \<and>
       scene_view 2 h' s' = Some [tree_saved])"
proof -
  have fin: "list_all (subtree_within 2 heap_saved) (rootNodes scene_saved)"
    by code_simp
  have live: "components_live heap_saved"
    by code_simp
  have view: "scene_view 2 heap_saved scene_saved = Some [tree_saved]"
    by code_simp
  have same: "map loaded [tree_saved] = [tree_saved]"
    by (simp add: tree_saved_def)
  from Scene_round_trip [OF fin live, of heap_saved scene_saved] view same fin live
  show ?thesis
    by auto
qed

end
